theory Spec2Isabelle
  imports Complex_Main "HOL-Library.Char_ord" "HOL-Library.List_Lexorder"
    "HOL-Library.Product_Lexorder"
begin

section \<open>Python values\<close>

text \<open>
  Exceptions are values.  Only the exception classes that the modelled paths of
  \<^verbatim>\<open>app.py\<close> and of the library calls it makes can raise are listed.
\<close>

datatype error = ValueError | IndexError | TypeError | FileNotFoundError | LoadError

text \<open>
  \<^verbatim>\<open>str.lower\<close>.  A Python string is a sequence of Unicode code points.  A
  \<^typ>\<open>char\<close> stands for the code point of its number, so the strings of the
  model are the strings over the code points below 256.  On these,
  \<^verbatim>\<open>str.lower\<close> works code point by code point: the code points 65 to 90
  (A to Z), 192 to 214 and 216 to 222 (the capital letters of Latin-1) are moved
  up by 32, and every other code point is kept.  No general proof below unfolds
  this definition: the theorems hold for whatever the case folding is.
\<close>

definition lower_char :: "char \<Rightarrow> char" where
  "lower_char c =
     (let n = (of_char c :: nat) in
      if (65 \<le> n \<and> n \<le> 90) \<or> (192 \<le> n \<and> n \<le> 214) \<or> (216 \<le> n \<and> n \<le> 222)
      then char_of (n + 32) else c)"

definition lower :: "string \<Rightarrow> string" where
  "lower s = map lower_char s"

section \<open>difflib: SequenceMatcher and get\_close\_matches\<close>

text \<open>
  \<^verbatim>\<open>get_close_matches\<close> builds \<^verbatim>\<open>SequenceMatcher()\<close> with
  \<^verbatim>\<open>isjunk=None\<close> and \<^verbatim>\<open>autojunk=True\<close>, sets the second sequence \<open>b\<close>
  to the word and the first sequence \<open>a\<close> to each possibility in turn.
  Ratios are Python floats \<^verbatim>\<open>2.0 * matches / length\<close>; they are modelled by the
  exact rational, which orders against the cutoff as the float does for every pair
  of strings a machine can hold.
\<close>

definition calculate_ratio :: "nat \<Rightarrow> nat \<Rightarrow> rat" where
  "calculate_ratio matches len =
     (if len \<noteq> 0 then 2 * of_nat matches / of_nat len else 1)"

text \<open>
  \<^verbatim>\<open>__chain_b\<close>: \<open>b2j\<close> maps an element to the increasing list of its positions
  in \<open>b\<close>.  With \<^verbatim>\<open>isjunk=None\<close> the junk set stays empty.  When \<open>b\<close> has at
  least 200 elements, the elements occurring more than \<open>n div 100 + 1\<close> times are
  popular and are deleted from \<open>b2j\<close>.
\<close>

definition bpopular :: "'a list \<Rightarrow> 'a \<Rightarrow> bool" where
  "bpopular b elt \<longleftrightarrow> 200 \<le> length b \<and> length b div 100 + 1 < count_list b elt"

definition b2j :: "'a list \<Rightarrow> 'a \<Rightarrow> nat list" where
  "b2j b elt = (if bpopular b elt then [] else filter (\<lambda>j. b ! j = elt) [0..<length b])"

definition isbjunk :: "'a \<Rightarrow> bool" where
  "isbjunk elt = False"

text \<open>
  \<^verbatim>\<open>find_longest_match\<close>, inner loop \<^verbatim>\<open>for j in b2j.get(a[i], nothing)\<close>.
  The dictionaries \<open>j2len\<close> and \<open>newj2len\<close> are only read through
  \<^verbatim>\<open>get(j-1, 0)\<close> and only hold positive lengths, so they are functions with
  value 0 at the absent keys.
\<close>

fun scan_row ::
  "(nat \<Rightarrow> nat) \<Rightarrow> nat \<Rightarrow> nat \<Rightarrow> nat \<Rightarrow> nat list \<Rightarrow>
   (nat \<Rightarrow> nat) \<times> nat \<times> nat \<times> nat \<Rightarrow> (nat \<Rightarrow> nat) \<times> nat \<times> nat \<times> nat" where
  "scan_row j2len i blo bhi [] st = st"
| "scan_row j2len i blo bhi (j # js) (newj2len, besti, bestj, bestsize) =
     (if j < blo then scan_row j2len i blo bhi js (newj2len, besti, bestj, bestsize)
      else if bhi \<le> j then (newj2len, besti, bestj, bestsize)
      else
        (let k = (if j = 0 then 0 else j2len (j - 1)) + 1 in
         scan_row j2len i blo bhi js
           (newj2len(j := k),
            if bestsize < k then (i + 1 - k, j + 1 - k, k) else (besti, bestj, bestsize))))"

text \<open>The outer loop \<^verbatim>\<open>for i in range(alo, ahi)\<close>.\<close>

fun scan_rows ::
  "'a list \<Rightarrow> 'a list \<Rightarrow> nat \<Rightarrow> nat \<Rightarrow> nat list \<Rightarrow>
   (nat \<Rightarrow> nat) \<times> nat \<times> nat \<times> nat \<Rightarrow> nat \<times> nat \<times> nat" where
  "scan_rows a b blo bhi [] (j2len, best) = best"
| "scan_rows a b blo bhi (i # is) (j2len, best) =
     scan_rows a b blo bhi is (scan_row j2len i blo bhi (b2j b (a ! i)) (\<lambda>_. 0, best))"

text \<open>
  The four \<^verbatim>\<open>while\<close> loops that extend the best block: first over elements that
  are not junk (\<open>junk = False\<close>), then over junk elements (\<open>junk = True\<close>).
\<close>

function extend_left ::
  "bool \<Rightarrow> 'a list \<Rightarrow> 'a list \<Rightarrow> nat \<Rightarrow> nat \<Rightarrow> nat \<times> nat \<times> nat \<Rightarrow> nat \<times> nat \<times> nat" where
  "extend_left junk a b alo blo (besti, bestj, bestsize) =
     (if alo < besti \<and> blo < bestj \<and> isbjunk (b ! (bestj - 1)) = junk
         \<and> a ! (besti - 1) = b ! (bestj - 1)
      then extend_left junk a b alo blo (besti - 1, bestj - 1, bestsize + 1)
      else (besti, bestj, bestsize))"
  by pat_completeness auto
termination
  by (relation "measure (\<lambda>(junk, a, b, alo, blo, besti, bestj, bestsize). besti)") auto

function extend_right ::
  "bool \<Rightarrow> 'a list \<Rightarrow> 'a list \<Rightarrow> nat \<Rightarrow> nat \<Rightarrow> nat \<times> nat \<times> nat \<Rightarrow> nat \<times> nat \<times> nat" where
  "extend_right junk a b ahi bhi (besti, bestj, bestsize) =
     (if besti + bestsize < ahi \<and> bestj + bestsize < bhi
         \<and> isbjunk (b ! (bestj + bestsize)) = junk
         \<and> a ! (besti + bestsize) = b ! (bestj + bestsize)
      then extend_right junk a b ahi bhi (besti, bestj, bestsize + 1)
      else (besti, bestj, bestsize))"
  by pat_completeness auto
termination
  by (relation "measure (\<lambda>(junk, a, b, ahi, bhi, besti, bestj, bestsize).
        ahi - (besti + bestsize))") auto

definition find_longest_match ::
  "'a list \<Rightarrow> 'a list \<Rightarrow> nat \<Rightarrow> nat \<Rightarrow> nat \<Rightarrow> nat \<Rightarrow> nat \<times> nat \<times> nat" where
  "find_longest_match a b alo ahi blo bhi =
     extend_right True a b ahi bhi
       (extend_left True a b alo blo
          (extend_right False a b ahi bhi
             (extend_left False a b alo blo
                (scan_rows a b blo bhi [alo..<ahi] (\<lambda>_. 0, alo, blo, 0)))))"

subsection \<open>find\_longest\_match returns a matching block inside its window\<close>

declare extend_left.simps [simp del] extend_right.simps [simp del]

text \<open>
  \<open>row_inv\<close> describes \<open>j2len\<close> when row \<open>i\<close> of the outer loop starts: an entry
  \<open>j2len j = k > 0\<close> is a run of \<open>k\<close> equal elements ending at \<open>a[i-1]\<close> and
  \<open>b[j]\<close> that stays inside the window.  \<open>block_inv\<close> is the contract of the
  returned triple.
\<close>


definition row_inv ::
  "'a list \<Rightarrow> 'a list \<Rightarrow> nat \<Rightarrow> nat \<Rightarrow> nat \<Rightarrow> nat \<Rightarrow> (nat \<Rightarrow> nat) \<Rightarrow> bool" where
  "row_inv a b alo blo bhi i j2len \<longleftrightarrow>
     (\<forall>j. 0 < j2len j \<longrightarrow>
        blo \<le> j \<and> j < bhi \<and> j2len j \<le> i - alo \<and> j2len j \<le> j + 1 - blo \<and>
        (\<forall>t<j2len j. a ! (i - 1 - t) = b ! (j - t)))"

definition block_inv ::
  "'a list \<Rightarrow> 'a list \<Rightarrow> nat \<Rightarrow> nat \<Rightarrow> nat \<Rightarrow> nat \<Rightarrow> nat \<times> nat \<times> nat \<Rightarrow> bool" where
  "block_inv a b alo ahi blo bhi blk \<longleftrightarrow>
     (case blk of (i, j, k) \<Rightarrow>
        alo \<le> i \<and> blo \<le> j \<and>
        (i + k \<le> ahi \<and> j + k \<le> bhi \<or> k = 0 \<and> i = alo \<and> j = blo) \<and>
        (\<forall>t<k. a ! (i + t) = b ! (j + t)))"

lemma b2j_member: "j \<in> set (b2j b x) \<Longrightarrow> b ! j = x"
  by (auto simp: b2j_def split: if_splits)

lemma row_inv_empty: "row_inv a b alo blo bhi i (\<lambda>_. 0)"
  by (simp add: row_inv_def)

lemma row_inv_step:
  assumes old: "row_inv a b alo blo bhi i j2len"
    and new: "row_inv a b alo blo bhi (Suc i) new"
    and i: "alo \<le> i" and j: "blo \<le> j" "j < bhi" and eq: "b ! j = a ! i"
  shows "row_inv a b alo blo bhi (Suc i) (new(j := (if j = 0 then 0 else j2len (j - 1)) + 1))"
proof -
  let ?p = "if j = 0 then 0 else j2len (j - 1)"
  have p: "?p \<le> i - alo \<and> ?p \<le> j - blo \<and> (\<forall>t<?p. a ! (i - 1 - t) = b ! (j - 1 - t))"
  proof (cases "?p = 0")
    case True
    then show ?thesis by simp
  next
    case False
    then have j0: "j \<noteq> 0" and pos: "0 < j2len (j - 1)" by (auto split: if_splits)
    from old pos have "j2len (j - 1) \<le> i - alo" "j2len (j - 1) \<le> j - 1 + 1 - blo"
      "\<forall>t<j2len (j - 1). a ! (i - 1 - t) = b ! (j - 1 - t)"
      unfolding row_inv_def by blast+
    with j0 show ?thesis by simp
  qed
  then have p_le: "?p \<le> i - alo" "?p \<le> j - blo"
    and p_eq: "\<forall>t<?p. a ! (i - 1 - t) = b ! (j - 1 - t)" by blast+
  have m: "a ! (Suc i - 1 - t) = b ! (j - t)" if "t < ?p + 1" for t
  proof (cases t)
    case 0
    then show ?thesis using eq by simp
  next
    case (Suc t')
    with that have "t' < ?p" by simp
    with p_eq have "a ! (i - 1 - t') = b ! (j - 1 - t')" by blast
    moreover have "t' < i - alo" "t' < j - blo" using \<open>t' < ?p\<close> p_le by linarith+
    moreover have "Suc i - 1 - t = i - 1 - t'" "j - t = j - 1 - t'"
      using Suc \<open>t' < i - alo\<close> \<open>t' < j - blo\<close> by linarith+
    ultimately show ?thesis by simp
  qed
  show ?thesis
    unfolding row_inv_def
  proof (intro allI impI)
    fix j' assume pos: "0 < (new(j := ?p + 1)) j'"
    show "blo \<le> j' \<and> j' < bhi \<and> (new(j := ?p + 1)) j' \<le> Suc i - alo \<and>
          (new(j := ?p + 1)) j' \<le> j' + 1 - blo \<and>
          (\<forall>t<(new(j := ?p + 1)) j'. a ! (Suc i - 1 - t) = b ! (j' - t))"
    proof (cases "j' = j")
      case True
      then show ?thesis using j i p_le m by auto
    next
      case False
      then show ?thesis using new pos unfolding row_inv_def by auto
    qed
  qed
qed

lemma block_inv_step:
  assumes new: "row_inv a b alo blo bhi (Suc i) new" and k: "new j = k" "0 < k"
    and i: "alo \<le> i" "i < ahi"
  shows "block_inv a b alo ahi blo bhi (i + 1 - k, j + 1 - k, k)"
proof -
  from new k have b: "blo \<le> j" "j < bhi" "k \<le> Suc i - alo" "k \<le> j + 1 - blo"
    and m: "\<forall>t<k. a ! (i - t) = b ! (j - t)"
    unfolding row_inv_def by auto
  have "a ! (i + 1 - k + t) = b ! (j + 1 - k + t)" if "t < k" for t
  proof -
    have "k - 1 - t < k" using that by simp
    with m have e: "a ! (i - (k - 1 - t)) = b ! (j - (k - 1 - t))" by blast
    have e1: "i - (k - 1 - t) = i + 1 - k + t" and e2: "j - (k - 1 - t) = j + 1 - k + t"
      using that b i by linarith+
    from e show ?thesis unfolding e1 e2 .
  qed
  then show ?thesis
    using b i unfolding block_inv_def by auto
qed

lemma scan_row_inv:
  assumes "row_inv a b alo blo bhi i j2len" "alo \<le> i" "i < ahi"
    and "\<forall>j\<in>set js. b ! j = a ! i"
    and "row_inv a b alo blo bhi (Suc i) new" "block_inv a b alo ahi blo bhi best"
    and "scan_row j2len i blo bhi js (new, best) = (new', best')"
  shows "row_inv a b alo blo bhi (Suc i) new' \<and> block_inv a b alo ahi blo bhi best'"
  using assms
proof (induction js arbitrary: new best)
  case Nil
  then show ?case by simp
next
  case (Cons j js)
  obtain bi bj bs where best: "best = (bi, bj, bs)" by (cases best) auto
  show ?case
  proof (cases "j < blo")
    case True
    with Cons.prems best have "scan_row j2len i blo bhi js (new, best) = (new', best')" by simp
    with Cons.IH Cons.prems show ?thesis by simp
  next
    case lo: False
    show ?thesis
    proof (cases "bhi \<le> j")
      case True
      with lo Cons.prems best show ?thesis by simp
    next
      case False
      let ?k = "(if j = 0 then 0 else j2len (j - 1)) + 1"
      let ?new = "new(j := ?k)"
      let ?best = "if bs < ?k then (i + 1 - ?k, j + 1 - ?k, ?k) else (bi, bj, bs)"
      from lo False Cons.prems best
      have run: "scan_row j2len i blo bhi js (?new, ?best) = (new', best')"
        by (simp only: scan_row.simps if_False Let_def)
      have n: "row_inv a b alo blo bhi (Suc i) ?new"
        using row_inv_step[OF Cons.prems(1) Cons.prems(5) Cons.prems(2)] lo False Cons.prems(4)
        by simp
      have "block_inv a b alo ahi blo bhi (i + 1 - ?k, j + 1 - ?k, ?k)"
        using block_inv_step[OF n _ _ Cons.prems(2) Cons.prems(3), of j ?k] by simp
      then have bst: "block_inv a b alo ahi blo bhi ?best"
        using Cons.prems(6) best by simp
      show ?thesis
        using Cons.IH[OF Cons.prems(1) Cons.prems(2) Cons.prems(3) _ n bst run] Cons.prems(4)
        by simp
    qed
  qed
qed


lemma scan_rows_inv:
  assumes "row_inv a b alo blo bhi i j2len" "block_inv a b alo ahi blo bhi best" "alo \<le> i"
  shows "block_inv a b alo ahi blo bhi (scan_rows a b blo bhi [i..<ahi] (j2len, best))"
  using assms
proof (induction "ahi - i" arbitrary: i j2len best)
  case 0
  then show ?case by simp
next
  case (Suc n)
  then have lt: "i < ahi" by simp
  obtain new' best' where
    row: "scan_row j2len i blo bhi (b2j b (a ! i)) (\<lambda>_. 0, best) = (new', best')"
    by (cases "scan_row j2len i blo bhi (b2j b (a ! i)) (\<lambda>_. 0, best)") auto
  have "row_inv a b alo blo bhi (Suc i) new' \<and> block_inv a b alo ahi blo bhi best'"
    using scan_row_inv[OF Suc.prems(1) Suc.prems(3) lt _ row_inv_empty Suc.prems(2) row]
    by (simp add: b2j_member)
  moreover have "n = ahi - Suc i" using Suc.hyps(2) by simp
  ultimately have "block_inv a b alo ahi blo bhi (scan_rows a b blo bhi [Suc i..<ahi] (new', best'))"
    using Suc.hyps(1) Suc.prems(3) by simp
  then show ?case using lt row by (simp add: upt_conv_Cons)
qed

lemma extend_left_inv:
  "block_inv a b alo ahi blo bhi blk \<Longrightarrow>
   block_inv a b alo ahi blo bhi (extend_left junk a b alo blo blk)"
proof (induction junk a b alo blo blk rule: extend_left.induct)
  case (1 junk a b alo blo besti bestj bestsize)
  show ?case
  proof (cases "alo < besti \<and> blo < bestj \<and> isbjunk (b ! (bestj - 1)) = junk
         \<and> a ! (besti - 1) = b ! (bestj - 1)")
    case True
    have m: "a ! (besti - 1 + t) = b ! (bestj - 1 + t)" if "t < bestsize + 1" for t
    proof (cases t)
      case 0
      then show ?thesis using True by simp
    next
      case (Suc t')
      with that have "t' < bestsize" by simp
      with "1.prems"(1) have "a ! (besti + t') = b ! (bestj + t')"
        unfolding block_inv_def by simp
      then show ?thesis using Suc True by simp
    qed
    have "block_inv a b alo ahi blo bhi (besti - 1, bestj - 1, bestsize + 1)"
      using True "1.prems" m unfolding block_inv_def prod.case
      by (intro conjI allI impI) linarith+
    then have "block_inv a b alo ahi blo bhi
       (extend_left junk a b alo blo (besti - 1, bestj - 1, bestsize + 1))"
      using "1.IH" True by blast
    then show ?thesis using True by (subst extend_left.simps) simp
  next
    case False
    with "1.prems" show ?thesis by (subst extend_left.simps) auto
  qed
qed

lemma extend_right_inv:
  "block_inv a b alo ahi blo bhi blk \<Longrightarrow>
   block_inv a b alo ahi blo bhi (extend_right junk a b ahi bhi blk)"
proof (induction junk a b ahi bhi blk rule: extend_right.induct)
  case (1 junk a b ahi bhi besti bestj bestsize)
  show ?case
  proof (cases "besti + bestsize < ahi \<and> bestj + bestsize < bhi
         \<and> isbjunk (b ! (bestj + bestsize)) = junk
         \<and> a ! (besti + bestsize) = b ! (bestj + bestsize)")
    case True
    have m: "a ! (besti + t) = b ! (bestj + t)" if "t < bestsize + 1" for t
    proof (cases "t = bestsize")
      case True
      then show ?thesis using \<open>besti + bestsize < ahi \<and> _\<close> by simp
    next
      case False
      with that have "t < bestsize" by simp
      with "1.prems"(1) show ?thesis
        unfolding block_inv_def by simp
    qed
    have "block_inv a b alo ahi blo bhi (besti, bestj, bestsize + 1)"
      using True "1.prems" m unfolding block_inv_def prod.case
      by (intro conjI allI impI) linarith+
    then have "block_inv a b alo ahi blo bhi
       (extend_right junk a b ahi bhi (besti, bestj, bestsize + 1))"
      using "1.IH" True by blast
    then show ?thesis using True by (subst extend_right.simps) simp
  next
    case False
    with "1.prems" show ?thesis by (subst extend_right.simps) auto
  qed
qed

lemma find_longest_match_inv:
  "block_inv a b alo ahi blo bhi (find_longest_match a b alo ahi blo bhi)"
proof -
  have "block_inv a b alo ahi blo bhi (alo, blo, 0)"
    by (simp add: block_inv_def)
  then have "block_inv a b alo ahi blo bhi
      (scan_rows a b blo bhi [alo..<ahi] (\<lambda>_. 0, alo, blo, 0))"
    using scan_rows_inv[OF row_inv_empty, of a b alo ahi blo bhi "(alo, blo, 0)" alo]
    by simp
  then show ?thesis
    unfolding find_longest_match_def
    by (intro extend_right_inv extend_left_inv)
qed

subsection \<open>get\_matching\_blocks, the ratios and get\_close\_matches\<close>

text \<open>
  The \<^verbatim>\<open>while queue\<close> loop of \<^verbatim>\<open>get_matching_blocks\<close>.  The Python list
  \<open>queue\<close> is used as a stack (\<^verbatim>\<open>pop()\<close> takes the last element); here the
  head of the list is the top of the stack, so the window right of the block,
  pushed last, comes first.
\<close>

function matching_blocks_loop ::
  "'a list \<Rightarrow> 'a list \<Rightarrow> (nat \<times> nat \<times> nat \<times> nat) list \<Rightarrow> (nat \<times> nat \<times> nat) list \<Rightarrow>
   (nat \<times> nat \<times> nat) list" where
  "matching_blocks_loop a b [] matching_blocks = matching_blocks"
| "matching_blocks_loop a b ((alo, ahi, blo, bhi) # queue) matching_blocks =
     (case find_longest_match a b alo ahi blo bhi of (i, j, k) \<Rightarrow>
        if k \<noteq> 0 then
          matching_blocks_loop a b
            ((if i + k < ahi \<and> j + k < bhi then [(i + k, ahi, j + k, bhi)] else []) @
             (if alo < i \<and> blo < j then [(alo, i, blo, j)] else []) @ queue)
            (matching_blocks @ [(i, j, k)])
        else matching_blocks_loop a b queue matching_blocks)"
  by pat_completeness auto
termination matching_blocks_loop
proof (relation "measure (\<lambda>(a, b, queue, acc).
         sum_list (map (\<lambda>(alo, ahi, blo, bhi). 2 * (ahi - alo) + 1) queue))", goal_cases)
  case 1
  show ?case by simp
next
  case (2 a b alo ahi blo bhi queue matching_blocks i rest j k)
  then have flm: "find_longest_match a b alo ahi blo bhi = (i, j, k)" by simp
  have "block_inv a b alo ahi blo bhi (i, j, k)"
    using find_longest_match_inv[of a b alo ahi blo bhi] flm by simp
  with \<open>k \<noteq> 0\<close> have "alo \<le> i" "i + k \<le> ahi"
    unfolding block_inv_def by auto
  with \<open>k \<noteq> 0\<close> show ?case by auto
next
  case 3
  then show ?case by simp
qed

text \<open>
  The tail of \<^verbatim>\<open>get_matching_blocks\<close>: after \<^verbatim>\<open>matching_blocks.sort()\<close>,
  adjacent blocks are merged and the sentinel \<open>(la, lb, 0)\<close> is appended.
\<close>

fun collapse_adjacent ::
  "(nat \<times> nat \<times> nat) list \<Rightarrow> nat \<times> nat \<times> nat \<Rightarrow> (nat \<times> nat \<times> nat) list \<Rightarrow>
   (nat \<times> nat \<times> nat) list" where
  "collapse_adjacent [] (i1, j1, k1) non_adjacent =
     (if k1 \<noteq> 0 then non_adjacent @ [(i1, j1, k1)] else non_adjacent)"
| "collapse_adjacent ((i2, j2, k2) # blocks) (i1, j1, k1) non_adjacent =
     (if i1 + k1 = i2 \<and> j1 + k1 = j2
      then collapse_adjacent blocks (i1, j1, k1 + k2) non_adjacent
      else collapse_adjacent blocks (i2, j2, k2)
             (if k1 \<noteq> 0 then non_adjacent @ [(i1, j1, k1)] else non_adjacent))"

definition get_matching_blocks :: "'a list \<Rightarrow> 'a list \<Rightarrow> (nat \<times> nat \<times> nat) list" where
  "get_matching_blocks a b =
     (let la = length a; lb = length b;
          matching_blocks = matching_blocks_loop a b [(0, la, 0, lb)] []
      in collapse_adjacent (sort matching_blocks) (0, 0, 0) [] @ [(la, lb, 0)])"

definition ratio :: "'a list \<Rightarrow> 'a list \<Rightarrow> rat" where
  "ratio a b =
     calculate_ratio (sum_list (map (\<lambda>(i, j, k). k) (get_matching_blocks a b)))
       (length a + length b)"

text \<open>
  \<^verbatim>\<open>quick_ratio\<close>: \<open>fullbcount\<close> counts the elements of \<open>b\<close>; \<open>avail\<close> is the
  dictionary of what is left of each count while \<open>a\<close> is walked.
\<close>

fun quick_loop :: "'a list \<Rightarrow> 'a list \<Rightarrow> ('a \<Rightarrow> int option) \<Rightarrow> nat \<Rightarrow> nat" where
  "quick_loop b [] avail matches = matches"
| "quick_loop b (elt # a) avail matches =
     (let numb = (case avail elt of Some v \<Rightarrow> v | None \<Rightarrow> int (count_list b elt))
      in quick_loop b a (avail(elt \<mapsto> numb - 1)) (if 0 < numb then matches + 1 else matches))"

definition quick_ratio :: "'a list \<Rightarrow> 'a list \<Rightarrow> rat" where
  "quick_ratio a b = calculate_ratio (quick_loop b a Map.empty 0) (length a + length b)"

definition real_quick_ratio :: "'a list \<Rightarrow> 'a list \<Rightarrow> rat" where
  "real_quick_ratio a b =
     (let la = length a; lb = length b in calculate_ratio (min la lb) (la + lb))"

text \<open>
  \<^verbatim>\<open>heapq.nlargest\<close>: for \<open>n = 1\<close> it is \<^verbatim>\<open>max\<close>, which keeps the first of the
  greatest elements; otherwise it returns what
  \<^verbatim>\<open>sorted(iterable, reverse=True)[:n]\<close> returns.  The elements are pairs
  (score, string), compared as Python compares tuples.
\<close>

fun py_max :: "'b::linorder \<Rightarrow> 'b list \<Rightarrow> 'b" where
  "py_max best [] = best"
| "py_max best (x # xs) = py_max (if best < x then x else best) xs"

definition nlargest :: "nat \<Rightarrow> 'b::linorder list \<Rightarrow> 'b list" where
  "nlargest n xs =
     (if n = 1 then (case xs of [] \<Rightarrow> [] | x # xs' \<Rightarrow> [py_max x xs'])
      else take n (rev (sort xs)))"

definition get_close_matches ::
  "string \<Rightarrow> string list \<Rightarrow> int \<Rightarrow> rat \<Rightarrow> error + string list" where
  "get_close_matches word possibilities n cutoff =
     (if \<not> 0 < n then Inl ValueError
      else if \<not> (0 \<le> cutoff \<and> cutoff \<le> 1) then Inl ValueError
      else
        (let result =
               map (\<lambda>x. (ratio x word, x))
                 (filter (\<lambda>x. cutoff \<le> real_quick_ratio x word \<and>
                               cutoff \<le> quick_ratio x word \<and>
                               cutoff \<le> ratio x word) possibilities)
         in Inr (map snd (nlargest (nat n) result))))"


section \<open>The Model Store\<close>

text \<open>
  Modelled from the spec: the types of the three pickled artifacts are not in the
  source.  The catalog is the table of Catalog Rows (title, release year, genre
  list) of section 3 of the specification; the row index of a Catalog Row is its
  position in the table, as the feature matrix is aligned with the catalog by
  position.  The feature matrix is the list of the feature vectors, one per row;
  a feature vector is the list of its entries, and the number of its entries is
  its number of features.
\<close>

record catalog_row =
  title :: string
  year :: int
  genres :: "string list"

type_synonym dataframe = "catalog_row list"

text \<open>
  Modelled from the spec: the Neighbor Index is a fitted nearest-neighbour
  estimator, "a precomputed structure supporting k nearest feature vectors to a
  query vector queries".  It holds the samples it was fitted on, their number
  of features \<open>n_features_in\<close>, the neighbour count \<open>n_neighbors\<close> chosen when it
  was built, and its metric.
  \<^verbatim>\<open>kneighbors(X)\<close>, called without \<^verbatim>\<open>n_neighbors\<close>, raises ValueError when
  the query row does not have \<open>n_features_in\<close> features or when more neighbours
  are asked for than samples were fitted; otherwise it returns for the one query
  row the \<open>n_neighbors\<close> nearest fitted samples, nearest first, with their
  distances.  The order of the samples that are at the same distance from the
  query is the library's own and is not fixed here: the index carries it as the
  key \<open>tie_break X i\<close> of sample \<open>i\<close> for the query \<open>X\<close>, by which equidistant
  samples are ranked and about which nothing is assumed (samples that agree in
  distance and key stay in the order of their positions).
\<close>

record ('v, 'd) nearest_neighbors =
  n_neighbors :: nat
  n_features_in :: nat
  fit_X :: "'v list list"
  metric :: "'v list \<Rightarrow> 'v list \<Rightarrow> 'd"
  tie_break :: "'v list \<Rightarrow> nat \<Rightarrow> nat"

definition kneighbors ::
  "('v, 'd::linorder) nearest_neighbors \<Rightarrow> 'v list \<Rightarrow> error + 'd list \<times> nat list" where
  "kneighbors knn X =
     (let n_samples_fit = length (fit_X knn) in
      if length X \<noteq> n_features_in knn then Inl ValueError
      else if n_neighbors knn = 0 then Inl ValueError
      else if n_samples_fit < n_neighbors knn then Inl ValueError
      else
        (let dist = (\<lambda>i. metric knn X (fit_X knn ! i));
             neigh_ind = take (n_neighbors knn)
               (sort_key (\<lambda>i. (dist i, tie_break knn X i)) [0..<n_samples_fit])
         in Inr (map dist neigh_ind, neigh_ind)))"

record ('v, 'd) models =
  movies :: dataframe
  knn :: "('v, 'd) nearest_neighbors"
  tfidf_matrix :: "'v list list"

text \<open>
  \<^verbatim>\<open>load_models\<close>: the three files are read in the order of the dictionary
  literal; a missing file raises FileNotFoundError and a file that cannot be
  unpickled raises the loader's error.  Nothing else is checked.
\<close>

datatype 'a artifact = Missing | Malformed | Stored 'a

record ('v, 'd) model_files =
  movies_joblib :: "dataframe artifact"
  knn_model_joblib :: "('v, 'd) nearest_neighbors artifact"
  tfidf_matrix_npz :: "'v list list artifact"

definition load :: "'a artifact \<Rightarrow> error + 'a" where
  "load f = (case f of Missing \<Rightarrow> Inl FileNotFoundError | Malformed \<Rightarrow> Inl LoadError
             | Stored x \<Rightarrow> Inr x)"

definition load_models :: "('v, 'd) model_files \<Rightarrow> error + ('v, 'd) models" where
  "load_models files =
     (case load (movies_joblib files) of Inl e \<Rightarrow> Inl e
      | Inr m \<Rightarrow>
     (case load (knn_model_joblib files) of Inl e \<Rightarrow> Inl e
      | Inr k \<Rightarrow>
     (case load (tfidf_matrix_npz files) of Inl e \<Rightarrow> Inl e
      | Inr t \<Rightarrow> Inr \<lparr>movies = m, knn = k, tfidf_matrix = t\<rparr>)))"

section \<open>get\_recommendations\<close>

text \<open>Indexing as pandas, scipy and numpy do it, with the IndexError written out.\<close>

definition first_index :: "bool list \<Rightarrow> error + nat" where
  "first_index msk =
     (case filter (\<lambda>i. msk ! i) [0..<length msk] of [] \<Rightarrow> Inl IndexError
      | i # _ \<Rightarrow> Inr i)"

definition getrow :: "'v list \<Rightarrow> nat \<Rightarrow> error + 'v" where
  "getrow m i = (if i < length m then Inr (m ! i) else Inl IndexError)"

definition iloc :: "dataframe \<Rightarrow> nat \<Rightarrow> error + catalog_row" where
  "iloc df i = (if i < length df then Inr (df ! i) else Inl IndexError)"

definition iloc_rows :: "dataframe \<Rightarrow> nat list \<Rightarrow> error + dataframe" where
  "iloc_rows df idx =
     (if \<forall>i\<in>set idx. i < length df then Inr (map (\<lambda>i. df ! i) idx) else Inl IndexError)"

definition py_slice :: "'a list \<Rightarrow> int \<Rightarrow> int \<Rightarrow> 'a list" where
  "py_slice xs start stop =
     (let len = int (length xs);
          clamp = (\<lambda>i. if i < 0 then max 0 (i + len) else min i len);
          lo = clamp start; hi = clamp stop
      in take (nat (hi - lo)) (drop (nat lo) xs))"

text \<open>
  \<^verbatim>\<open>get_recommendations(movie_title, models, n=5)\<close>.  The first component of the
  result lists the vectors with which the Neighbor Index was queried; the second
  is the returned pair, or the exception raised.
\<close>

definition get_recommendations ::
  "string \<Rightarrow> ('v, 'd::linorder) models \<Rightarrow> int \<Rightarrow>
   'v list list \<times> (error + dataframe option \<times> catalog_row option)" where
  "get_recommendations movie_title models n =
     (case get_close_matches (lower movie_title)
             (map (\<lambda>r. lower (title r)) (movies models)) 1 (3 / 10) of
        Inl e \<Rightarrow> ([], Inl e)
      | Inr [] \<Rightarrow> ([], Inr (None, None))
      | Inr (m # _) \<Rightarrow>
     (case first_index (map (\<lambda>r. lower (title r) = m) (movies models)) of
        Inl e \<Rightarrow> ([], Inl e)
      | Inr movie_idx \<Rightarrow>
     (case getrow (tfidf_matrix models) movie_idx of
        Inl e \<Rightarrow> ([], Inl e)
      | Inr X \<Rightarrow>
     (case kneighbors (knn models) X of
        Inl e \<Rightarrow> ([X], Inl e)
      | Inr (distances, indices) \<Rightarrow>
     (case iloc_rows (movies models) (py_slice indices 1 (n + 1)) of
        Inl e \<Rightarrow> ([X], Inl e)
      | Inr recommendations \<Rightarrow>
     (case iloc (movies models) movie_idx of
        Inl e \<Rightarrow> ([X], Inl e)
      | Inr original \<Rightarrow> ([X], Inr (Some recommendations, Some original))))))))"

section \<open>main\<close>

text \<open>
  One run of the page script.  The outcome is the message the page shows:
  nothing when the button was not pressed, the warning, the error, or the
  success header with the recommendations; an uncaught exception ends the run.
  The drawing of the cards and charts after the success header is not modelled.
\<close>

datatype outcome =
  Idle | Warning string | Error string | Success catalog_row dataframe | Raised error

definition render :: "dataframe option \<times> catalog_row option \<Rightarrow> outcome" where
  "render r =
     (case r of (recommendations, original) \<Rightarrow>
        (case recommendations of
           Some recs \<Rightarrow>
             (case original of Some row \<Rightarrow> Success row recs | None \<Rightarrow> Raised TypeError)
         | None \<Rightarrow> Error ''Movie not found. Try being more specific or check spelling.''))"

definition main ::
  "('v, 'd::linorder) model_files \<Rightarrow> string \<Rightarrow> bool \<Rightarrow> 'v list list \<times> outcome" where
  "main files movie_title button =
     (case load_models files of
        Inl e \<Rightarrow> ([], Raised e)
      | Inr models \<Rightarrow>
          if button then
            if movie_title \<noteq> [] then
              (case get_recommendations movie_title models 5 of
                 (queries, Inl e) \<Rightarrow> (queries, Raised e)
               | (queries, Inr r) \<Rightarrow> (queries, render r))
            else ([], Warning ''Please enter a movie title to get recommendations'')
          else ([], Idle))"

section \<open>Properties\<close>

subsection \<open>The Matcher: lines 95 to 101 of get\_recommendations\<close>

abbreviation close_matches :: "string \<Rightarrow> ('v, 'd) models \<Rightarrow> error + string list" where
  "close_matches movie_title models \<equiv>
     get_close_matches (lower movie_title) (map (\<lambda>r. lower (title r)) (movies models)) 1 (3 / 10)"

lemma py_max_mem: "py_max best xs \<in> set (best # xs)"
  by (induction xs arbitrary: best) auto

lemma nlargest_1_subset: "set (nlargest 1 xs) \<subseteq> set xs"
  using py_max_mem by (fastforce simp: nlargest_def split: list.splits)

lemma nlargest_1_Nil: "nlargest 1 xs = [] \<longleftrightarrow> xs = []"
  by (simp add: nlargest_def split: list.splits)

lemma get_close_matches_1:
  "get_close_matches word ps 1 (3 / 10) =
     Inr (map snd (nlargest 1 (map (\<lambda>x. (ratio x word, x))
       (filter (\<lambda>x. 3 / 10 \<le> real_quick_ratio x word \<and> 3 / 10 \<le> quick_ratio x word \<and>
                     3 / 10 \<le> ratio x word) ps))))"
  by (simp add: get_close_matches_def)

lemma get_close_matches_sound:
  assumes "get_close_matches word ps 1 (3 / 10) = Inr ms" "m \<in> set ms"
  shows "m \<in> set ps \<and> 3 / 10 \<le> ratio m word"
proof -
  let ?ok = "\<lambda>x. 3 / 10 \<le> real_quick_ratio x word \<and> 3 / 10 \<le> quick_ratio x word \<and>
                     3 / 10 \<le> ratio x word"
  from assms have "m \<in> snd ` set (nlargest 1 (map (\<lambda>x. (ratio x word, x)) (filter ?ok ps)))"
    unfolding get_close_matches_1 by force
  then have "m \<in> snd ` set (map (\<lambda>x. (ratio x word, x)) (filter ?ok ps))"
    using nlargest_1_subset by blast
  then show ?thesis by auto
qed

lemma get_close_matches_none:
  assumes "\<forall>x\<in>set ps. ratio x word < 3 / 10"
  shows "get_close_matches word ps 1 (3 / 10) = Inr []"
proof -
  have "filter (\<lambda>x. 3 / 10 \<le> real_quick_ratio x word \<and> 3 / 10 \<le> quick_ratio x word \<and>
                     3 / 10 \<le> ratio x word) ps = []"
    using assms by (auto simp: filter_empty_conv)
  then show ?thesis by (simp add: get_close_matches_1 nlargest_def)
qed

lemma get_close_matches_total: "\<exists>ms. get_close_matches word ps 1 (3 / 10) = Inr ms"
  by (simp add: get_close_matches_1)

lemma filter_upt_Cons:
  "filter P [m..<n] = i # rest \<Longrightarrow> m \<le> i \<and> i < n \<and> P i \<and> (\<forall>j. m \<le> j \<and> j < i \<longrightarrow> \<not> P j)"
proof (induction "n - m" arbitrary: m)
  case 0
  then show ?case by simp
next
  case (Suc d)
  then have lt: "m < n" by simp
  show ?case
  proof (cases "P m")
    case True
    with Suc.prems lt show ?thesis by (auto simp add: upt_conv_Cons)
  next
    case False
    with Suc.prems lt have "filter P [Suc m..<n] = i # rest" by (simp add: upt_conv_Cons)
    moreover have "d = n - Suc m" using Suc.hyps(2) by simp
    ultimately have "Suc m \<le> i \<and> i < n \<and> P i \<and> (\<forall>j. Suc m \<le> j \<and> j < i \<longrightarrow> \<not> P j)"
      using Suc.hyps(1) by blast
    with False show ?thesis by (metis Suc_leD Suc_leI le_neq_implies_less)
  qed
qed

lemma filter_upt_first:
  assumes "i < n" "P i" "\<forall>j<i. \<not> P j"
  shows "\<exists>rest. filter P [0..<n] = i # rest"
proof -
  have "[0..<n] = [0..<i] @ i # [Suc i..<n]"
    using assms(1) by (metis le0 less_imp_le_nat upt_add_eq_append upt_conv_Cons le_add_diff_inverse)
  moreover have "filter P [0..<i] = []" using assms(3) by (simp add: filter_empty_conv)
  ultimately show ?thesis using assms(2) by simp
qed

lemma first_index_Inr:
  "first_index msk = Inr i \<longleftrightarrow> i < length msk \<and> msk ! i \<and> (\<forall>j<i. \<not> msk ! j)"
proof
  assume "first_index msk = Inr i"
  then obtain rest where "filter (\<lambda>i. msk ! i) [0..<length msk] = i # rest"
    by (auto simp: first_index_def split: list.splits)
  from filter_upt_Cons[OF this] show "i < length msk \<and> msk ! i \<and> (\<forall>j<i. \<not> msk ! j)" by simp
next
  assume "i < length msk \<and> msk ! i \<and> (\<forall>j<i. \<not> msk ! j)"
  then obtain rest where "filter (\<lambda>i. msk ! i) [0..<length msk] = i # rest"
    using filter_upt_first[of i "length msk" "\<lambda>i. msk ! i"] by blast
  then show "first_index msk = Inr i" by (simp add: first_index_def)
qed


lemma get_recommendations_no_match:
  "close_matches movie_title models = Inr [] \<Longrightarrow>
   get_recommendations movie_title models n = ([], Inr (None, None))"
  by (simp add: get_recommendations_def)

lemma get_recommendations_SomeD:
  assumes "snd (get_recommendations movie_title models n) = Inr (Some recs, orig)"
  shows "\<exists>m ms i distances indices.
           close_matches movie_title models = Inr (m # ms) \<and>
           first_index (map (\<lambda>r. lower (title r) = m) (movies models)) = Inr i \<and>
           i < length (tfidf_matrix models) \<and> i < length (movies models) \<and>
           kneighbors (knn models) (tfidf_matrix models ! i) = Inr (distances, indices) \<and>
           (\<forall>j\<in>set (py_slice indices 1 (n + 1)). j < length (movies models)) \<and>
           recs = map (\<lambda>j. movies models ! j) (py_slice indices 1 (n + 1)) \<and>
           orig = Some (movies models ! i) \<and>
           fst (get_recommendations movie_title models n) = [tfidf_matrix models ! i]"
  using assms unfolding get_recommendations_def getrow_def iloc_def iloc_rows_def
  by (auto split: sum.splits list.splits prod.splits if_splits)

subsection \<open>A small Model Store to run the code on\<close>

definition l1 :: "int list \<Rightarrow> int list \<Rightarrow> int" where
  "l1 u v = sum_list (map (\<lambda>(x, y). \<bar>x - y\<bar>) (zip u v))"

text \<open>
  The indexes of the examples are fitted on vectors with one feature, measure
  with \<open>l1\<close>, and rank samples at the same distance by their position.
\<close>

definition ex_index :: "nat \<Rightarrow> int list list \<Rightarrow> (int, int) nearest_neighbors" where
  "ex_index k samples =
     \<lparr>n_neighbors = k, n_features_in = 1, fit_X = samples, metric = l1,
      tie_break = (\<lambda>X i. i)\<rparr>"

definition ex_movies :: dataframe where
  "ex_movies =
     [\<lparr>title = ''Up'', year = 2009, genres = [''Animation'']\<rparr>,
      \<lparr>title = ''Her'', year = 2013, genres = [''Drama'']\<rparr>,
      \<lparr>title = ''Ran'', year = 1985, genres = [''Drama'', ''War'']\<rparr>]"

definition ex_models :: "(int, int) models" where
  "ex_models =
     \<lparr>movies = ex_movies,
      knn = ex_index 3 [[0], [1], [5]],
      tfidf_matrix = [[0], [1], [5]]\<rparr>"

lemma ex_her: "get_recommendations ''her'' ex_models 5 =
   ([[1]], Inr (Some [ex_movies ! 0, ex_movies ! 2], Some (ex_movies ! 1)))"
  by code_simp

lemma ex_qqq: "get_recommendations ''qqq'' ex_models 5 = ([], Inr (None, None))"
  by code_simp

lemma ex_qqq_matches: "close_matches ''qqq'' ex_models = Inr []"
  by code_simp

lemma ex_her_matches: "close_matches ''her'' ex_models = Inr [''her'']"
  by code_simp

lemma first_index_titles:
  "first_index (map (\<lambda>r. lower (title r) = m) mv) = Inr i \<longleftrightarrow>
     i < length mv \<and> lower (title (mv ! i)) = m \<and> (\<forall>j<i. lower (title (mv ! j)) \<noteq> m)"
  by (auto simp: first_index_Inr)

text \<open>
  C4.  A row is resolved only when its case-folded title has similarity ratio at
  least 0.3 to the case-folded input; when no case-folded title of the catalog
  reaches 0.3, get\_recommendations returns the no-match pair and nothing else
  happens.
\<close>

theorem C4_threshold:
  "(snd (get_recommendations movie_title models n) = Inr (Some recs, Some original) \<longrightarrow>
      original \<in> set (movies models) \<and>
      3 / 10 \<le> ratio (lower (title original)) (lower movie_title)) \<and>
   ((\<forall>r\<in>set (movies models). ratio (lower (title r)) (lower movie_title) < 3 / 10) \<longrightarrow>
      get_recommendations movie_title models n = ([], Inr (None, None)))"
proof (intro conjI impI)
  assume "snd (get_recommendations movie_title models n) = Inr (Some recs, Some original)"
  from get_recommendations_SomeD[OF this] obtain m ms i where
    cm: "close_matches movie_title models = Inr (m # ms)" and
    fi: "first_index (map (\<lambda>r. lower (title r) = m) (movies models)) = Inr i" and
    i: "i < length (movies models)" and orig: "original = movies models ! i"
    by auto
  from fi have "lower (title (movies models ! i)) = m"
    by (simp add: first_index_titles)
  moreover from get_close_matches_sound[OF cm, of m] have "3 / 10 \<le> ratio m (lower movie_title)"
    by simp
  ultimately show "original \<in> set (movies models)"
    and "3 / 10 \<le> ratio (lower (title original)) (lower movie_title)"
    using i orig by simp_all
next
  assume "\<forall>r\<in>set (movies models). ratio (lower (title r)) (lower movie_title) < 3 / 10"
  then have "close_matches movie_title models = Inr []"
    by (intro get_close_matches_none) simp
  then show "get_recommendations movie_title models n = ([], Inr (None, None))"
    by (rule get_recommendations_no_match)
qed

theorem C4_threshold_witness:
  "snd (get_recommendations ''her'' ex_models 5) =
     Inr (Some [ex_movies ! 0, ex_movies ! 2], Some (ex_movies ! 1)) \<and>
   3 / 10 \<le> ratio (lower (title (ex_movies ! 1))) (lower ''her'') \<and>
   map (\<lambda>r. ratio (lower (title r)) (lower ''qqq'')) (movies ex_models) = [0, 0, 0] \<and>
   get_recommendations ''qqq'' ex_models 5 = ([], Inr (None, None))"
proof -
  have a: "snd (get_recommendations ''her'' ex_models 5) =
     Inr (Some [ex_movies ! 0, ex_movies ! 2], Some (ex_movies ! 1))"
    by (simp add: ex_her)
  have c: "map (\<lambda>r. ratio (lower (title r)) (lower ''qqq'')) (movies ex_models) = [0, 0, 0]"
    by code_simp
  have "\<forall>q\<in>set (map (\<lambda>r. ratio (lower (title r)) (lower ''qqq'')) (movies ex_models)).
          q < 3 / 10"
    unfolding c by simp
  then have b: "\<forall>r\<in>set (movies ex_models). ratio (lower (title r)) (lower ''qqq'') < 3 / 10"
    by simp
  from a b c
    C4_threshold[of "''her''" ex_models 5 "[ex_movies ! 0, ex_movies ! 2]" "ex_movies ! 1"]
    C4_threshold[of "''qqq''" ex_models 5]
  show ?thesis by blast
qed

text \<open>
  C5.  When the Matcher's best match \<open>m\<close> is the case-folded title of several
  catalog rows, the resolved row is the first row of the catalog whose
  case-folded title is \<open>m\<close>, and it is this row's feature vector that is sent to
  the Neighbor Index.
\<close>

theorem C5_first_row_wins:
  assumes "close_matches movie_title models = Inr (m # ms)"
    and "snd (get_recommendations movie_title models n) = Inr (Some recs, Some original)"
  shows "\<exists>i<length (movies models).
           original = movies models ! i \<and>
           lower (title (movies models ! i)) = m \<and>
           (\<forall>j<i. lower (title (movies models ! j)) \<noteq> m) \<and>
           fst (get_recommendations movie_title models n) = [tfidf_matrix models ! i]"
proof -
  from get_recommendations_SomeD[OF assms(2)] assms(1) obtain i where
    fi: "first_index (map (\<lambda>r. lower (title r) = m) (movies models)) = Inr i" and
    i: "i < length (movies models)" and orig: "original = movies models ! i" and
    q: "fst (get_recommendations movie_title models n) = [tfidf_matrix models ! i]"
    by auto
  from fi i have "lower (title (movies models ! i)) = m"
    "\<forall>j<i. lower (title (movies models ! j)) \<noteq> m"
    by (simp_all add: first_index_titles)
  with i orig q show ?thesis by blast
qed

lemma kneighbors_InrD:
  assumes "kneighbors nn X = Inr (distances, indices)"
  shows "indices = take (n_neighbors nn)
           (sort_key (\<lambda>i. (metric nn X (fit_X nn ! i), tie_break nn X i))
              [0..<length (fit_X nn)])"
    and "distances = map (\<lambda>i. metric nn X (fit_X nn ! i)) indices"
    and "0 < n_neighbors nn" and "n_neighbors nn \<le> length (fit_X nn)"
    and "length X = n_features_in nn"
  using assms by (auto simp: kneighbors_def Let_def split: if_splits)

lemma sorted_fst_key:
  "sorted (map (\<lambda>i. (f i, g i)) xs) \<Longrightarrow> sorted (map f xs)"
  for f :: "'a \<Rightarrow> 'b::linorder" and g :: "'a \<Rightarrow> 'c::linorder"
  unfolding sorted_map
  by (rule sorted_wrt_mono_rel) (auto simp: less_eq_prod_def)

lemma kneighbors_sorted:
  assumes "kneighbors nn X = Inr (distances, indices)"
  shows "sorted (map (\<lambda>i. metric nn X (fit_X nn ! i)) indices)"
proof -
  let ?dist = "\<lambda>i. metric nn X (fit_X nn ! i)"
  let ?key = "\<lambda>i. (?dist i, tie_break nn X i)"
  have "sorted (map ?key (sort_key ?key [0..<length (fit_X nn)]))"
    by (rule sorted_sort_key)
  then have "sorted (map ?dist (sort_key ?key [0..<length (fit_X nn)]))"
    by (rule sorted_fst_key)
  then have "sorted (take (n_neighbors nn) (map ?dist (sort_key ?key [0..<length (fit_X nn)])))"
    by (rule sorted_wrt_take)
  then show ?thesis
    unfolding kneighbors_InrD(1)[OF assms] by (simp add: take_map)
qed



lemma py_slice_take_drop: "\<exists>k l. py_slice xs start stop = take k (drop l xs)"
  unfolding py_slice_def Let_def by blast


lemma set_py_slice: "set (py_slice xs start stop) \<subseteq> set xs"
proof -
  obtain k l where "py_slice xs start stop = take k (drop l xs)"
    using py_slice_take_drop by blast
  then show ?thesis
    by (metis set_take_subset set_drop_subset subset_trans)
qed

text \<open>
  C3.  The recommended rows come in the order in which the Neighbor Index returned
  them, so their distances from the query row's feature vector, as the index
  measures them, never decrease along the returned sequence.
\<close>

theorem C3_nondecreasing_distance:
  assumes "snd (get_recommendations movie_title models n) = Inr (Some recs, Some original)"
  shows "\<exists>X idx. fst (get_recommendations movie_title models n) = [X] \<and>
           recs = map (\<lambda>j. movies models ! j) idx \<and>
           sorted (map (\<lambda>j. metric (knn models) X (fit_X (knn models) ! j)) idx)"
proof -
  from get_recommendations_SomeD[OF assms] obtain i distances indices where
    kn: "kneighbors (knn models) (tfidf_matrix models ! i) = Inr (distances, indices)" and
    recs: "recs = map (\<lambda>j. movies models ! j) (py_slice indices 1 (n + 1))" and
    q: "fst (get_recommendations movie_title models n) = [tfidf_matrix models ! i]"
    by auto
  let ?X = "tfidf_matrix models ! i"
  let ?dist = "\<lambda>j. metric (knn models) ?X (fit_X (knn models) ! j)"
  obtain k l where sl: "py_slice indices 1 (n + 1) = take k (drop l indices)"
    using py_slice_take_drop by blast
  have "sorted (map ?dist indices)" using kn by (rule kneighbors_sorted)
  then have "sorted (take k (drop l (map ?dist indices)))"
    by (intro sorted_wrt_take sorted_wrt_drop)
  then have "sorted (map ?dist (py_slice indices 1 (n + 1)))"
    by (simp add: sl take_map drop_map)
  with recs q show ?thesis by blast
qed

theorem C3_nondecreasing_distance_witness:
  "snd (get_recommendations ''her'' ex_models 5) =
     Inr (Some [ex_movies ! 0, ex_movies ! 2], Some (ex_movies ! 1)) \<and>
   (\<exists>X idx. fst (get_recommendations ''her'' ex_models 5) = [X] \<and>
      [ex_movies ! 0, ex_movies ! 2] = map (\<lambda>j. movies ex_models ! j) idx \<and>
      sorted (map (\<lambda>j. metric (knn ex_models) X (fit_X (knn ex_models) ! j)) idx))"
proof -
  have a: "snd (get_recommendations ''her'' ex_models 5) =
     Inr (Some [ex_movies ! 0, ex_movies ! 2], Some (ex_movies ! 1))"
    by (simp add: ex_her)
  from a C3_nondecreasing_distance[OF a] show ?thesis by blast
qed

subsection \<open>Outcomes of a request\<close>

definition ex_dup_movies :: dataframe where
  "ex_dup_movies =
     [\<lparr>title = ''it'', year = 1990, genres = [''Horror'']\<rparr>,
      \<lparr>title = ''It'', year = 2017, genres = [''Horror'']\<rparr>,
      \<lparr>title = ''Up'', year = 2009, genres = [''Animation'']\<rparr>]"

definition ex_dup_models :: "(int, int) models" where
  "ex_dup_models =
     \<lparr>movies = ex_dup_movies,
      knn = ex_index 3 [[2], [3], [7]],
      tfidf_matrix = [[2], [3], [7]]\<rparr>"

lemma ex_dup_It: "get_recommendations ''It'' ex_dup_models 5 =
   ([[2]], Inr (Some [ex_dup_movies ! 1, ex_dup_movies ! 2], Some (ex_dup_movies ! 0)))"
  by code_simp

lemma ex_dup_It_matches: "close_matches ''It'' ex_dup_models = Inr [''it'']"
  by code_simp

theorem C5_first_row_wins_witness:
  "close_matches ''It'' ex_dup_models = Inr [''it''] \<and>
   snd (get_recommendations ''It'' ex_dup_models 5) =
     Inr (Some [ex_dup_movies ! 1, ex_dup_movies ! 2], Some (ex_dup_movies ! 0)) \<and>
   (\<exists>i<length (movies ex_dup_models).
      ex_dup_movies ! 0 = movies ex_dup_models ! i \<and>
      lower (title (movies ex_dup_models ! i)) = ''it'' \<and>
      (\<forall>j<i. lower (title (movies ex_dup_models ! j)) \<noteq> ''it'') \<and>
      fst (get_recommendations ''It'' ex_dup_models 5) = [tfidf_matrix ex_dup_models ! i])"
proof -
  have a: "snd (get_recommendations ''It'' ex_dup_models 5) =
     Inr (Some [ex_dup_movies ! 1, ex_dup_movies ! 2], Some (ex_dup_movies ! 0))"
    by (simp add: ex_dup_It)
  from ex_dup_It_matches a C5_first_row_wins[OF ex_dup_It_matches a] show ?thesis by blast
qed

text \<open>
  C8.  On a non-empty input for which the Matcher finds nothing, the Neighbor
  Index is not queried and the page shows the "Movie not found" error.
\<close>

theorem C8_no_match_no_query:
  assumes "movie_title \<noteq> []" and "load_models files = Inr models"
    and "close_matches movie_title models = Inr []"
  shows "fst (get_recommendations movie_title models n) = [] \<and>
         main files movie_title True =
           ([], Error ''Movie not found. Try being more specific or check spelling.'')"
  using assms by (simp add: get_recommendations_no_match main_def render_def)

definition ex_files :: "(int, int) model_files" where
  "ex_files =
     \<lparr>movies_joblib = Stored (movies ex_models),
      knn_model_joblib = Stored (knn ex_models),
      tfidf_matrix_npz = Stored (tfidf_matrix ex_models)\<rparr>"

lemma ex_files_load: "load_models ex_files = Inr ex_models"
  by (simp add: load_models_def load_def ex_files_def)

theorem C8_no_match_no_query_witness:
  "''qqq'' \<noteq> [] \<and> load_models ex_files = Inr ex_models \<and>
   close_matches ''qqq'' ex_models = Inr [] \<and>
   fst (get_recommendations ''qqq'' ex_models 5) = [] \<and>
   main ex_files ''qqq'' True =
     ([], Error ''Movie not found. Try being more specific or check spelling.'')"
proof -
  have a: "''qqq'' \<noteq> []" by simp
  from a ex_files_load ex_qqq_matches
    C8_no_match_no_query[OF a ex_files_load ex_qqq_matches, of 5]
  show ?thesis by blast
qed

text \<open>
  C10.  When the Matcher finds nothing, get\_recommendations returns the pair
  (None, None).  The caller looks at the first component only: whatever the
  second component is, a first component None gives the error outcome and a
  first component that is not None never does.
\<close>

theorem C10_none_pair:
  "(close_matches movie_title models = Inr [] \<longrightarrow>
      snd (get_recommendations movie_title models n) = Inr (None, None)) \<and>
   render (None, original) =
     Error ''Movie not found. Try being more specific or check spelling.'' \<and>
   render (Some recs, original) \<noteq>
     Error ''Movie not found. Try being more specific or check spelling.''"
  by (simp add: get_recommendations_no_match render_def split: option.splits)

theorem C10_none_pair_witness:
  "close_matches ''qqq'' ex_models = Inr [] \<and>
   snd (get_recommendations ''qqq'' ex_models 5) = Inr (None, None)"
  using C10_none_pair[of "''qqq''" ex_models 5] ex_qqq_matches by blast

subsection \<open>How many rows are recommended\<close>






subsection \<open>Loading the Model Store\<close>

definition ex_skewed_files :: "(int, int) model_files" where
  "ex_skewed_files =
     \<lparr>movies_joblib = Stored ex_movies,
      knn_model_joblib = Stored (ex_index 2 [[0], [1]]),
      tfidf_matrix_npz = Stored [[0]]\<rparr>"

text \<open>
  C9, as stated, fails for the dimension check.  Three well-formed artifacts with
  three catalog rows, one matrix row and two fitted samples load without error,
  and the process goes on to serve a request.
\<close>

theorem C9_skewed_store_loads_counterexample:
  "load_models ex_skewed_files =
     Inr \<lparr>movies = ex_movies,
          knn = ex_index 2 [[0], [1]],
          tfidf_matrix = [[0]]\<rparr> \<and>
   length ex_movies = 3 \<and> length [[0::int]] = 1 \<and> length [[0::int], [1]] = 2 \<and>
   main ex_skewed_files ''up'' True = ([[0]], Success (ex_movies ! 0) [ex_movies ! 1])"
proof -
  have "load_models ex_skewed_files =
     Inr \<lparr>movies = ex_movies,
          knn = ex_index 2 [[0], [1]],
          tfidf_matrix = [[0]]\<rparr>"
    by (simp add: load_models_def load_def ex_skewed_files_def)
  moreover have "length ex_movies = 3" by (simp add: ex_movies_def)
  moreover have
    "main ex_skewed_files ''up'' True = ([[0]], Success (ex_movies ! 0) [ex_movies ! 1])"
    by code_simp
  ultimately show ?thesis by simp
qed

text \<open>
  C9, amended.  Loading fails exactly when one of the three artifacts is missing
  or cannot be read, and then every run of the page ends with the exception,
  whatever the input.  The row counts of the artifacts are not compared.
\<close>

theorem C9_load_fails:
  "(\<exists>e. load_models files = Inl e \<and> (\<forall>movie_title button. main files movie_title button = ([], Raised e)))
   \<longleftrightarrow>
   (movies_joblib files \<in> {Missing, Malformed} \<or>
    knn_model_joblib files \<in> {Missing, Malformed} \<or>
    tfidf_matrix_npz files \<in> {Missing, Malformed})"
proof -
  have "(\<exists>e. load_models files = Inl e) \<longleftrightarrow>
        (movies_joblib files \<in> {Missing, Malformed} \<or>
         knn_model_joblib files \<in> {Missing, Malformed} \<or>
         tfidf_matrix_npz files \<in> {Missing, Malformed})"
    by (cases "movies_joblib files"; cases "knn_model_joblib files";
        cases "tfidf_matrix_npz files") (simp_all add: load_models_def load_def)
  moreover have "main files movie_title button = ([], Raised e)"
    if "load_models files = Inl e" for e movie_title button
    using that by (simp add: main_def)
  ultimately show ?thesis by blast
qed

theorem C9_load_fails_witness:
  "load_models (ex_files\<lparr>knn_model_joblib := Missing\<rparr>) = Inl FileNotFoundError \<and>
   main (ex_files\<lparr>knn_model_joblib := Missing\<rparr>) ''her'' True = ([], Raised FileNotFoundError) \<and>
   load_models (ex_files\<lparr>tfidf_matrix_npz := Malformed\<rparr>) = Inl LoadError"
proof -
  have a: "knn_model_joblib (ex_files\<lparr>knn_model_joblib := Missing\<rparr>) \<in> {Missing, Malformed}"
    and b: "tfidf_matrix_npz (ex_files\<lparr>tfidf_matrix_npz := Malformed\<rparr>) \<in> {Missing, Malformed}"
    by simp_all
  have c: "load_models (ex_files\<lparr>knn_model_joblib := Missing\<rparr>) = Inl FileNotFoundError"
    and d: "load_models (ex_files\<lparr>tfidf_matrix_npz := Malformed\<rparr>) = Inl LoadError"
    by (simp_all add: load_models_def load_def ex_files_def)
  from a c C9_load_fails[of "ex_files\<lparr>knn_model_joblib := Missing\<rparr>"]
  have "main (ex_files\<lparr>knn_model_joblib := Missing\<rparr>) ''her'' True = ([], Raised FileNotFoundError)"
    by auto
  with c d show ?thesis by simp
qed

subsection \<open>The query row among its own recommendations\<close>

text \<open>
  A store in which the rows 0 and 1 have the same feature vector.  The order in
  which the index ranks samples at the same distance is the parameter \<open>ties\<close>:
  nothing is assumed about it.
\<close>

definition ex_twin_models :: "(int list \<Rightarrow> nat \<Rightarrow> nat) \<Rightarrow> (int, int) models" where
  "ex_twin_models ties =
     \<lparr>movies = ex_movies,
      knn = (ex_index 3 [[1], [1], [5]])\<lparr>tie_break := ties\<rparr>,
      tfidf_matrix = [[1], [1], [5]]\<rparr>"

lemma ex_twin_matches:
  "get_close_matches (lower ''Up'') (map (\<lambda>r. lower (title r)) ex_movies) 1 (3 / 10) =
     Inr [''up'']"
  "get_close_matches (lower ''Her'') (map (\<lambda>r. lower (title r)) ex_movies) 1 (3 / 10) =
     Inr [''her'']"
  by code_simp+

lemma ex_twin_index:
  "first_index (map (\<lambda>r. lower (title r) = ''up'') ex_movies) = Inr 0"
  "first_index (map (\<lambda>r. lower (title r) = ''her'') ex_movies) = Inr 1"
  by code_simp+

lemma ex_twin_rows: "length ex_movies = 3"
  by (simp add: ex_movies_def)

lemma ex_twin_kneighbors:
  "kneighbors (knn (ex_twin_models ties)) [1] =
     Inr ([0, 0, 4], if ties [1] 0 \<le> ties [1] 1 then [0, 1, 2] else [1, 0, 2])"
proof -
  have upt: "[0..<3] = [0, 1, 2::nat]" by (simp add: upt_rec)
  show ?thesis
    by (simp add: kneighbors_def ex_twin_models_def ex_index_def l1_def Let_def upt
        sort_key_def less_eq_prod_def)
qed

lemma ex_twin_slices:
  "py_slice [0, Suc 0, 2::nat] 1 6 = [Suc 0, 2]" "py_slice [Suc 0, 0, 2::nat] 1 6 = [0, 2]"
  by (simp_all add: py_slice_def)

text \<open>
  C1.  Both rows 0 and 1 are at distance 0 from their common feature vector, so
  the index lists them first, in the order of its own choice, and it answers the
  queries of the two rows with the same list.  Dropping the first neighbour
  drops one of the two rows: the row listed second is recommended to itself.
  With row 0 ranked first that is row 1 ("Her"), with row 1 ranked first it is
  row 0 ("Up").  The last part runs the code with the order in which row 1
  comes first.
\<close>

theorem C1_self_recommended:
  "(if ties [1] 0 \<le> ties [1] 1
    then get_recommendations ''Her'' (ex_twin_models ties) 5 =
           ([[1]], Inr (Some [ex_movies ! 1, ex_movies ! 2], Some (ex_movies ! 1)))
    else get_recommendations ''Up'' (ex_twin_models ties) 5 =
           ([[1]], Inr (Some [ex_movies ! 0, ex_movies ! 2], Some (ex_movies ! 0)))) \<and>
   get_recommendations ''Up'' (ex_twin_models (\<lambda>X i. if i = 1 then 0 else Suc i)) 5 =
     ([[1]], Inr (Some [ex_movies ! 0, ex_movies ! 2], Some (ex_movies ! 0)))"
proof -
  have store: "movies (ex_twin_models t) = ex_movies"
    "tfidf_matrix (ex_twin_models t) = [[1], [1], [5]]" for t
    by (simp_all add: ex_twin_models_def)
  have her: "get_recommendations ''Her'' (ex_twin_models t) 5 =
      ([[1]], Inr (Some [ex_movies ! 1, ex_movies ! 2], Some (ex_movies ! 1)))"
    if "t [1] 0 \<le> t [1] 1" for t
    using that
    by (simp add: get_recommendations_def store ex_twin_matches ex_twin_index getrow_def
        ex_twin_kneighbors ex_twin_slices iloc_rows_def iloc_def ex_twin_rows)
  have up: "get_recommendations ''Up'' (ex_twin_models t) 5 =
      ([[1]], Inr (Some [ex_movies ! 0, ex_movies ! 2], Some (ex_movies ! 0)))"
    if "\<not> t [1] 0 \<le> t [1] 1" for t
    using that
    by (simp add: get_recommendations_def store ex_twin_matches ex_twin_index getrow_def
        ex_twin_kneighbors ex_twin_slices iloc_rows_def iloc_def ex_twin_rows)
  have "\<not> (\<lambda>X i. if i = 1 then 0 else Suc i) [1::int] (0::nat) \<le>
          (\<lambda>X i. if i = 1 then 0 else Suc i) [1::int] (1::nat)"
    by simp
  from up[OF this] her up show ?thesis by simp
qed

subsection \<open>The similarity ratio: at most 1, and 1 only for equal sequences\<close>

definition total :: "(nat \<times> nat \<times> nat) list \<Rightarrow> nat" where
  "total blocks = sum_list (map (\<lambda>(i, j, k). k) blocks)"

fun cap :: "nat \<times> nat \<times> nat \<times> nat \<Rightarrow> nat" where
  "cap (alo, ahi, blo, bhi) = min (ahi - alo) (bhi - blo)"

lemma total_append: "total (xs @ ys) = total xs + total ys"
  by (simp add: total_def)

lemma total_insort: "total (insort x xs) = total [x] + total xs"
  by (induction xs) (auto simp: total_def)

lemma total_sort: "total (sort xs) = total xs"
  by (induction xs) (simp_all add: total_insort, simp_all add: total_def)

lemma total_collapse:
  "total (collapse_adjacent blocks cur out) = total blocks + total [cur] + total out"
  by (induction blocks cur out rule: collapse_adjacent.induct) (auto simp: total_def)

lemma total_get_matching_blocks:
  "total (get_matching_blocks a b) =
   total (matching_blocks_loop a b [(0, length a, 0, length b)] [])"
  by (simp add: get_matching_blocks_def Let_def total_append total_collapse total_sort)
     (simp add: total_def)

lemma ratio_total:
  "ratio a b =
   calculate_ratio (total (matching_blocks_loop a b [(0, length a, 0, length b)] []))
     (length a + length b)"
  using total_get_matching_blocks[of a b] by (simp add: ratio_def total_def)

declare matching_blocks_loop.simps(2) [simp del]

lemma loop_step:
  assumes "find_longest_match a b alo ahi blo bhi = (i, j, k)"
  shows "matching_blocks_loop a b ((alo, ahi, blo, bhi) # queue) acc =
     (if k \<noteq> 0 then
        matching_blocks_loop a b
          ((if i + k < ahi \<and> j + k < bhi then [(i + k, ahi, j + k, bhi)] else []) @
           (if alo < i \<and> blo < j then [(alo, i, blo, j)] else []) @ queue)
          (acc @ [(i, j, k)])
      else matching_blocks_loop a b queue acc)"
  using assms by (simp add: matching_blocks_loop.simps(2))

lemma find_longest_match_block:
  assumes "find_longest_match a b alo ahi blo bhi = (i, j, k)" "k \<noteq> 0"
  shows "alo \<le> i" "i + k \<le> ahi" "blo \<le> j" "j + k \<le> bhi"
    and "\<forall>t<k. a ! (i + t) = b ! (j + t)"
  using find_longest_match_inv[of a b alo ahi blo bhi] assms
  unfolding block_inv_def by auto

lemma loop_total_le:
  "total (matching_blocks_loop a b queue acc) \<le> total acc + sum_list (map cap queue)"
proof (induction a b queue acc rule: matching_blocks_loop.induct)
  case (1 a b matching_blocks)
  then show ?case by simp
next
  case (2 a b alo ahi blo bhi queue acc)
  obtain i j k where flm: "find_longest_match a b alo ahi blo bhi = (i, j, k)"
    by (cases "find_longest_match a b alo ahi blo bhi") auto
  show ?case
  proof (cases "k = 0")
    case True
    then have "total (matching_blocks_loop a b queue acc) \<le> total acc + sum_list (map cap queue)"
      using "2.IH"(2)[of i "(j, k)" j k] flm by simp
    then show ?thesis using True flm by (simp add: loop_step[OF flm])
  next
    case False
    let ?right = "if i + k < ahi \<and> j + k < bhi then [(i + k, ahi, j + k, bhi)] else []"
    let ?left = "if alo < i \<and> blo < j then [(alo, i, blo, j)] else []"
    have ih: "total (matching_blocks_loop a b (?right @ ?left @ queue) (acc @ [(i, j, k)]))
        \<le> total (acc @ [(i, j, k)]) + sum_list (map cap (?right @ ?left @ queue))"
      using "2.IH"(1)[of i "(j, k)" j k] flm False by simp
    note bl = find_longest_match_block[OF flm False]
    have "k + sum_list (map cap ?right) + sum_list (map cap ?left) \<le> cap (alo, ahi, blo, bhi)"
      using bl(1-4) by auto
    then have "total (acc @ [(i, j, k)]) + sum_list (map cap (?right @ ?left @ queue))
        \<le> total acc + sum_list (map cap ((alo, ahi, blo, bhi) # queue))"
      by (simp add: total_append total_def)
    with ih show ?thesis using False by (simp add: loop_step[OF flm])
  qed
qed

fun square :: "nat \<times> nat \<times> nat \<times> nat \<Rightarrow> bool" where
  "square (alo, ahi, blo, bhi) \<longleftrightarrow> alo \<le> ahi \<and> blo \<le> bhi \<and> ahi - alo = bhi - blo"

fun agree :: "'a list \<Rightarrow> 'a list \<Rightarrow> nat \<times> nat \<times> nat \<times> nat \<Rightarrow> bool" where
  "agree a b (alo, ahi, blo, bhi) \<longleftrightarrow> (\<forall>t<ahi - alo. a ! (alo + t) = b ! (blo + t))"

lemma loop_total_full:
  assumes "\<forall>q\<in>set queue. square q"
    and "total acc + sum_list (map cap queue) \<le> total (matching_blocks_loop a b queue acc)"
  shows "\<forall>q\<in>set queue. agree a b q"
  using assms
proof (induction a b queue acc rule: matching_blocks_loop.induct)
  case (1 a b matching_blocks)
  then show ?case by simp
next
  case (2 a b alo ahi blo bhi queue acc)
  obtain i j k where flm: "find_longest_match a b alo ahi blo bhi = (i, j, k)"
    by (cases "find_longest_match a b alo ahi blo bhi") auto
  from "2.prems"(1) have sq: "alo \<le> ahi" "blo \<le> bhi" "ahi - alo = bhi - blo"
    and sq_rest: "\<forall>q\<in>set queue. square q" by simp_all
  show ?case
  proof (cases "k = 0")
    case True
    have loop: "matching_blocks_loop a b ((alo, ahi, blo, bhi) # queue) acc =
        matching_blocks_loop a b queue acc"
      using True by (simp add: loop_step[OF flm])
    have up: "total (matching_blocks_loop a b queue acc) \<le> total acc + sum_list (map cap queue)"
      by (rule loop_total_le)
    from "2.prems"(2) have low:
      "total acc + (cap (alo, ahi, blo, bhi) + sum_list (map cap queue))
         \<le> total (matching_blocks_loop a b queue acc)"
      unfolding loop by simp
    from up low have zero: "cap (alo, ahi, blo, bhi) = 0"
      and rest: "total acc + sum_list (map cap queue) \<le> total (matching_blocks_loop a b queue acc)"
      by linarith+
    have "\<not> k \<noteq> 0" using True by simp
    then have "\<forall>q\<in>set queue. agree a b q"
      by (rule "2.IH"(2)[OF flm[symmetric] refl _ sq_rest rest])
    moreover have "agree a b (alo, ahi, blo, bhi)"
      using zero sq by simp
    ultimately show ?thesis by simp
  next
    case False
    let ?right = "if i + k < ahi \<and> j + k < bhi then [(i + k, ahi, j + k, bhi)] else []"
    let ?left = "if alo < i \<and> blo < j then [(alo, i, blo, j)] else []"
    let ?new = "?right @ ?left @ queue"
    let ?acc = "acc @ [(i, j, k)]"
    note bl = find_longest_match_block[OF flm False]
    have loop: "matching_blocks_loop a b ((alo, ahi, blo, bhi) # queue) acc =
        matching_blocks_loop a b ?new ?acc"
      using False by (simp add: loop_step[OF flm])
    have up: "total (matching_blocks_loop a b ?new ?acc) \<le> total ?acc + sum_list (map cap ?new)"
      by (rule loop_total_le)
    from "2.prems"(2) have low:
      "total acc + (cap (alo, ahi, blo, bhi) + sum_list (map cap queue))
         \<le> total (matching_blocks_loop a b ?new ?acc)"
      unfolding loop by simp
    define cr where "cr = sum_list (map cap ?right)"
    define cl where "cl = sum_list (map cap ?left)"
    have tacc: "total ?acc = total acc + k" by (simp add: total_append total_def)
    have capnew: "sum_list (map cap ?new) = cr + cl + sum_list (map cap queue)"
      by (simp add: cr_def cl_def)
    have cr_le: "cr \<le> ahi - (i + k)" "cr \<le> bhi - (j + k)"
      and cl_le: "cl \<le> i - alo" "cl \<le> j - blo"
      by (simp_all add: cr_def cl_def)
    have capq: "cap (alo, ahi, blo, bhi) = ahi - alo" using sq by simp
    define p where "p = i - alo"
    define r where "r = ahi - (i + k)"
    define p' where "p' = j - blo"
    define r' where "r' = bhi - (j + k)"
    have La: "ahi - alo = p + k + r" and Lb: "bhi - blo = p' + k + r'"
      using bl(1-4) by (simp_all add: p_def r_def p'_def r'_def)
    from up low tacc capnew capq La have L: "p + k + r \<le> k + cr + cl" by linarith
    have cl_p: "cl \<le> p" "cl \<le> p'" and cr_r: "cr \<le> r" "cr \<le> r'"
      using cl_le cr_le by (simp_all add: p_def r_def p'_def r'_def)
    from L cl_p cr_r have "cl = p" "cr = r" by linarith+
    moreover from L La Lb sq(3) cl_p cr_r have "cl = p'" "cr = r'" by linarith+
    ultimately have cl_eq: "cl = i - alo" "cl = j - blo"
      and cr_eq: "cr = ahi - (i + k)" "cr = bhi - (j + k)"
      by (simp_all add: p_def r_def p'_def r'_def)
    have sq_new: "\<forall>q\<in>set ?new. square q"
      using sq_rest bl(1-4) cl_eq cr_eq by auto
    have "total ?acc + sum_list (map cap ?new) \<le> total (matching_blocks_loop a b ?new ?acc)"
      using low tacc capnew capq La \<open>cl = p\<close> \<open>cr = r\<close> by linarith
    then have ih: "\<forall>q\<in>set ?new. agree a b q"
      by (rule "2.IH"(1)[OF flm[symmetric] refl False sq_new])
    have "a ! (alo + t) = b ! (blo + t)" if t: "t < ahi - alo" for t
    proof -
      consider "t < i - alo" | "i - alo \<le> t" "t < i - alo + k" | "i - alo + k \<le> t"
        by linarith
      then show ?thesis
      proof cases
        case 1
        then have "0 < cl" using cl_eq by simp
        then have "alo < i \<and> blo < j" by (auto simp: cl_def split: if_splits)
        then have "agree a b (alo, i, blo, j)" using ih by simp
        with 1 show ?thesis by simp
      next
        case 2
        define x where "x = t - (i - alo)"
        have "x < k" using 2 by (simp add: x_def)
        with bl(5) have e: "a ! (i + x) = b ! (j + x)" by blast
        have e1: "i + x = alo + t" and e2: "j + x = blo + t"
          using 2 bl(1,3) cl_eq by (simp_all add: x_def)
        from e show ?thesis unfolding e1 e2 .
      next
        case 3
        define u where "u = t - (i - alo) - k"
        have u: "u < ahi - (i + k)" using 3 t bl(1,2) by (simp add: u_def)
        then have "0 < cr" using cr_eq by simp
        then have "i + k < ahi \<and> j + k < bhi" by (auto simp: cr_def split: if_splits)
        then have "agree a b (i + k, ahi, j + k, bhi)" using ih by simp
        with u have e: "a ! (i + k + u) = b ! (j + k + u)" by simp
        have e1: "i + k + u = alo + t" and e2: "j + k + u = blo + t"
          using 3 bl(1,3) cl_eq by (simp_all add: u_def)
        from e show ?thesis unfolding e1 e2 .
      qed
    qed
    then have "agree a b (alo, ahi, blo, bhi)" by simp
    moreover have "\<forall>q\<in>set queue. agree a b q" using ih by simp
    ultimately show ?thesis by simp
  qed
qed

lemma ratio_le_1: "ratio a b \<le> 1"
proof -
  let ?M = "total (matching_blocks_loop a b [(0, length a, 0, length b)] [])"
  have "?M \<le> min (length a) (length b)"
    using loop_total_le[of a b "[(0, length a, 0, length b)]" "[]"] by (simp add: total_def)
  then have "2 * ?M \<le> length a + length b" by linarith
  then have "(of_nat (2 * ?M) :: rat) \<le> of_nat (length a + length b)"
    by (simp only: of_nat_le_iff)
  then have "2 * (of_nat ?M :: rat) \<le> of_nat (length a + length b)" by simp
  then show ?thesis
    by (cases "length a + length b = 0")
       (simp_all add: ratio_total calculate_ratio_def del: of_nat_add)
qed

lemma ratio_1_equal:
  assumes "ratio a b = 1"
  shows "a = b"
proof (cases "length a + length b = 0")
  case True
  then show ?thesis by simp
next
  case False
  let ?M = "total (matching_blocks_loop a b [(0, length a, 0, length b)] [])"
  have le: "?M \<le> min (length a) (length b)"
    using loop_total_le[of a b "[(0, length a, 0, length b)]" "[]"] by (simp add: total_def)
  from assms False have "2 * (of_nat ?M :: rat) = of_nat (length a + length b)"
    by (simp add: ratio_total calculate_ratio_def)
  then have "(of_nat (2 * ?M) :: rat) = of_nat (length a + length b)" by simp
  then have "2 * ?M = length a + length b" by (simp only: of_nat_eq_iff)
  with le have len: "length a = length b" and M: "?M = length a" by linarith+
  have "\<forall>q\<in>set [(0, length a, 0, length b)]. agree a b q"
  proof (rule loop_total_full[where acc = "[]"])
    show "\<forall>q\<in>set [(0, length a, 0, length b)]. square q" using len by simp
    show "total [] + sum_list (map cap [(0, length a, 0, length b)]) \<le> ?M"
      using len M by (simp add: total_def)
  qed
  then have "\<forall>t<length a. a ! t = b ! t" by simp
  with len show ?thesis by (simp add: nth_equalityI)
qed

subsection \<open>A sequence compared with itself\<close>

text \<open>
  \<open>run b j\<close> is the length of the longest stretch of elements of \<open>b\<close> that are
  not popular and that ends at position \<open>j\<close>.
\<close>

fun run :: "'a list \<Rightarrow> nat \<Rightarrow> nat" where
  "run b 0 = (if bpopular b (b ! 0) then 0 else 1)"
| "run b (Suc j) = (if bpopular b (b ! Suc j) then 0 else Suc (run b j))"

definition prev_run :: "'a list \<Rightarrow> nat \<Rightarrow> nat" where
  "prev_run b i = (if i = 0 then 0 else run b (i - 1))"

lemma run_prev: "run b i = (if bpopular b (b ! i) then 0 else Suc (prev_run b i))"
  by (cases i) (simp_all add: prev_run_def)

lemma scan_row_diag:
  assumes old: "\<forall>j. j2len j \<le> run b j \<and> j2len j \<le> prev_run b i"
      "0 < i \<longrightarrow> j2len (i - 1) = prev_run b i"
    and c: "\<not> bpopular b (b ! i)"
    and js: "sorted_wrt (<) js" "\<forall>j\<in>set js. j < n \<and> b ! j = b ! i"
    and st: "\<forall>j. new j \<le> run b j \<and> new j \<le> run b i" "besti = bestj"
      "\<forall>j<i. run b j \<le> bestsize"
      "i \<in> set js \<or> ((\<forall>j\<in>set js. i < j) \<and> new i = run b i \<and> run b i \<le> bestsize)"
    and res: "scan_row j2len i 0 n js (new, besti, bestj, bestsize) = (new', besti', bestj', bestsize')"
  shows "(\<forall>j. new' j \<le> run b j \<and> new' j \<le> run b i) \<and> besti' = bestj' \<and>
         (\<forall>j<i. run b j \<le> bestsize') \<and> new' i = run b i \<and> run b i \<le> bestsize'"
  using js st res
proof (induction js arbitrary: new besti bestj bestsize)
  case Nil
  then show ?case by simp
next
  case (Cons j js)
  define k where "k = (if j = 0 then 0 else j2len (j - 1)) + 1"
  have jn: "j < n" and bj: "b ! j = b ! i" using Cons.prems(2) by simp_all
  have runi: "run b i = Suc (prev_run b i)" using c by (simp add: run_prev)
  have runj: "run b j = Suc (prev_run b j)" using c bj by (simp add: run_prev)
  have k_le_j: "k \<le> run b j"
    using old(1) by (auto simp: runj prev_run_def k_def)
  have k_le_i: "k \<le> run b i"
    using old(1) by (auto simp: runi k_def)
  let ?new = "new(j := k)"
  let ?best = "if bestsize < k then (i + 1 - k, j + 1 - k, k) else (besti, bestj, bestsize)"
  have step: "scan_row j2len i 0 n js (?new, ?best) = (new', besti', bestj', bestsize')"
  proof -
    have "\<not> j < 0" "\<not> n \<le> j" using jn by simp_all
    with Cons.prems(7) show ?thesis
      unfolding k_def by (simp only: scan_row.simps if_False Let_def)
  qed
  have sorted_tl: "sorted_wrt (<) js" and tl_gt: "\<forall>x\<in>set js. j < x"
    using Cons.prems(1) by simp_all
  have tl_mem: "\<forall>x\<in>set js. x < n \<and> b ! x = b ! i" using Cons.prems(2) by simp
  have new_ok: "\<forall>x. ?new x \<le> run b x \<and> ?new x \<le> run b i"
    using Cons.prems(3) k_le_j k_le_i by (simp del: run.simps)
  consider "j < i" | "j = i" | "i < j" by linarith
  then show ?case
  proof cases
    case 1
    then have "k \<le> bestsize" using k_le_j Cons.prems(5) by (meson le_trans)
    then have best: "?best = (besti, bestj, bestsize)" by simp
    have mem: "i \<in> set js" using Cons.prems(6) 1 by auto
    show ?thesis
      using Cons.IH[OF sorted_tl tl_mem new_ok Cons.prems(4) Cons.prems(5) _ step[unfolded best]] mem
      by simp
  next
    case 2
    have keq: "k = run b i"
      using old(2) 2 by (auto simp: runi prev_run_def k_def)
    obtain bi bj bs where best: "?best = (bi, bj, bs)" by (cases ?best) auto
    have diag: "bi = bj" and grow: "bestsize \<le> bs" and big: "run b i \<le> bs"
      using best Cons.prems(4) 2 keq by (auto split: if_splits)
    have lt: "\<forall>x<i. run b x \<le> bs" using Cons.prems(5) grow by (meson le_trans)
    have fin: "i \<in> set js \<or> ((\<forall>x\<in>set js. i < x) \<and> ?new i = run b i \<and> run b i \<le> bs)"
      using tl_gt 2 keq big by simp
    show ?thesis
      using Cons.IH[OF sorted_tl tl_mem new_ok diag lt fin step[unfolded best]] .
  next
    case 3
    then have "i \<notin> set (j # js)" using tl_gt by auto
    with Cons.prems(6) have seen: "new i = run b i" "run b i \<le> bestsize" by simp_all
    then have "k \<le> bestsize" using k_le_i by (meson le_trans)
    then have best: "?best = (besti, bestj, bestsize)" by simp
    have fin: "i \<in> set js \<or> ((\<forall>x\<in>set js. i < x) \<and> ?new i = run b i \<and> run b i \<le> bestsize)"
      using tl_gt 3 seen by auto
    show ?thesis
      using Cons.IH[OF sorted_tl tl_mem new_ok Cons.prems(4) Cons.prems(5) fin step[unfolded best]] .
  qed
qed

lemma scan_rows_diag:
  assumes "n = length b" "i \<le> n"
    and "\<forall>j. j2len j \<le> run b j \<and> j2len j \<le> prev_run b i"
    and "0 < i \<longrightarrow> j2len (i - 1) = prev_run b i"
    and "\<forall>j<i. run b j \<le> bestsize"
  shows "\<exists>p s. scan_rows b b 0 n [i..<n] (j2len, besti, besti, bestsize) = (p, p, s)"
  using assms
proof (induction "n - i" arbitrary: i j2len besti bestsize)
  case 0
  then show ?case by simp
next
  case (Suc d)
  then have lt: "i < n" by simp
  have prev_Suc: "prev_run b (Suc i) = run b i" by (simp add: prev_run_def)
  obtain new' bi bj bs where
    row: "scan_row j2len i 0 n (b2j b (b ! i)) (\<lambda>_. 0, besti, besti, bestsize) = (new', bi, bj, bs)"
    by (cases "scan_row j2len i 0 n (b2j b (b ! i)) (\<lambda>_. 0, besti, besti, bestsize)") auto
  have post: "(\<forall>j. new' j \<le> run b j \<and> new' j \<le> run b i) \<and> bi = bj \<and>
         (\<forall>j<i. run b j \<le> bs) \<and> new' i = run b i \<and> run b i \<le> bs"
  proof (cases "bpopular b (b ! i)")
    case True
    then have "run b i = 0" by (simp add: run_prev)
    moreover from True row have "new' = (\<lambda>_. 0)" "bi = besti" "bj = besti" "bs = bestsize"
      by (simp_all add: b2j_def)
    ultimately show ?thesis using Suc.prems(5) by simp
  next
    case False
    let ?js = "filter (\<lambda>j. b ! j = b ! i) [0..<n]"
    have js: "b2j b (b ! i) = ?js" using False Suc.prems(1) by (simp add: b2j_def)
    have 1: "sorted_wrt (<) ?js" by (rule sorted_wrt_filter) simp
    have 2: "\<forall>j\<in>set ?js. j < n \<and> b ! j = b ! i" by simp
    have 3: "\<forall>j. (\<lambda>_. 0::nat) j \<le> run b j \<and> (\<lambda>_. 0::nat) j \<le> run b i" by simp
    have 4: "i \<in> set ?js \<or>
        ((\<forall>j\<in>set ?js. i < j) \<and> (\<lambda>_. 0::nat) i = run b i \<and> run b i \<le> bestsize)"
      using lt by simp
    show ?thesis
      by (rule scan_row_diag[OF Suc.prems(3) Suc.prems(4) False 1 2 3 refl Suc.prems(5) 4
            row[unfolded js]])
  qed
  have "\<exists>p s. scan_rows b b 0 n [Suc i..<n] (new', bi, bi, bs) = (p, p, s)"
  proof (rule Suc.hyps(1))
    show "d = n - Suc i" using Suc.hyps(2) by simp
    show "n = length b" by fact
    show "Suc i \<le> n" using lt by simp
    show "\<forall>j. new' j \<le> run b j \<and> new' j \<le> prev_run b (Suc i)"
      using post by (simp add: prev_Suc)
    show "0 < Suc i \<longrightarrow> new' (Suc i - 1) = prev_run b (Suc i)"
      using post by (simp add: prev_Suc)
    show "\<forall>j<Suc i. run b j \<le> bs" using post by (simp add: less_Suc_eq)
  qed
  moreover have "bj = bi" using post by simp
  ultimately show ?case using lt row by (simp add: upt_conv_Cons)
qed

lemma extend_left_self:
  "extend_left False a a 0 0 (p, p, s) = (0, 0, s + p)"
proof (induction p arbitrary: s)
  case 0
  then show ?case by (subst extend_left.simps) simp
next
  case (Suc p)
  show ?case
    by (subst extend_left.simps) (simp add: isbjunk_def Suc.IH)
qed

lemma extend_right_self:
  "m \<le> n \<Longrightarrow> extend_right False a a n n (0, 0, m) = (0, 0, n)"
proof (induction "n - m" arbitrary: m)
  case 0
  then show ?case by (subst extend_right.simps) simp
next
  case (Suc d)
  then have "extend_right False a a n n (0, 0, Suc m) = (0, 0, n)" by simp
  moreover have "m < n" using Suc.hyps(2) by simp
  ultimately show ?case
    by (subst extend_right.simps) (simp add: isbjunk_def)
qed

lemma extend_left_junk: "extend_left True a b alo blo blk = blk"
proof (cases blk)
  case (fields besti bestj bestsize)
  show ?thesis unfolding fields by (subst extend_left.simps) (simp add: isbjunk_def)
qed

lemma extend_right_junk: "extend_right True a b ahi bhi blk = blk"
proof (cases blk)
  case (fields besti bestj bestsize)
  show ?thesis unfolding fields by (subst extend_right.simps) (simp add: isbjunk_def)
qed

lemma find_longest_match_self:
  "find_longest_match a a 0 (length a) 0 (length a) = (0, 0, length a)"
proof -
  let ?n = "length a"
  obtain p s where dp: "scan_rows a a 0 ?n [0..<?n] (\<lambda>_. 0, 0, 0, 0) = (p, p, s)"
    using scan_rows_diag[of ?n a 0 "\<lambda>_. 0" 0 0] by (auto simp: prev_run_def)
  have "block_inv a a 0 ?n 0 ?n (p, p, s)"
    using scan_rows_inv[OF row_inv_empty, of a a 0 ?n 0 ?n "(0, 0, 0)" 0] dp
    by (simp add: block_inv_def)
  then have "s + p \<le> ?n" by (auto simp: block_inv_def)
  then show ?thesis
    by (simp add: find_longest_match_def dp extend_left_self extend_right_self
        extend_left_junk extend_right_junk)
qed

lemma ratio_self: "ratio a a = 1"
proof (cases "a = []")
  case True
  then show ?thesis
    by (simp add: ratio_total calculate_ratio_def)
next
  case False
  have "matching_blocks_loop a a [(0, length a, 0, length a)] [] = [(0, 0, length a)]"
    using False by (simp add: loop_step[OF find_longest_match_self])
  then show ?thesis
    using False by (simp add: ratio_total calculate_ratio_def total_def)
qed

lemma quick_loop_self:
  assumes "\<forall>e. avail e =
      (if e \<in> set p then Some (int (count_list b e) - int (count_list p e)) else None)"
    and "\<forall>e. count_list p e + count_list s e \<le> count_list b e"
  shows "quick_loop b s avail m = m + length s"
  using assms
proof (induction s arbitrary: p avail m)
  case Nil
  then show ?case by simp
next
  case (Cons e s)
  define numb where "numb = (case avail e of Some v \<Rightarrow> v | None \<Rightarrow> int (count_list b e))"
  have numb: "numb = int (count_list b e) - int (count_list p e)"
    using Cons.prems(1) by (auto simp: numb_def)
  have "count_list p e + count_list (e # s) e \<le> count_list b e"
    using Cons.prems(2) by blast
  then have pos: "0 < numb" unfolding numb by simp
  have "quick_loop b s (avail(e \<mapsto> numb - 1)) (Suc m) = Suc m + length s"
  proof (rule Cons.IH[where p = "p @ [e]"])
    show "\<forall>x. (avail(e \<mapsto> numb - 1)) x =
        (if x \<in> set (p @ [e])
         then Some (int (count_list b x) - int (count_list (p @ [e]) x)) else None)"
      using Cons.prems(1) by (auto simp: numb)
    show "\<forall>x. count_list (p @ [e]) x + count_list s x \<le> count_list b x"
    proof
      fix x
      have "count_list p x + count_list (e # s) x \<le> count_list b x"
        using Cons.prems(2) by blast
      then show "count_list (p @ [e]) x + count_list s x \<le> count_list b x"
        by (simp split: if_splits)
    qed
  qed
  then show ?case using pos by (simp add: numb_def[symmetric] Let_def)
qed

lemma quick_ratio_self: "quick_ratio a a = 1"
proof -
  have "quick_loop a a Map.empty 0 = 0 + length a"
    by (rule quick_loop_self[where p = "[]"]) simp_all
  then show ?thesis by (simp add: quick_ratio_def calculate_ratio_def)
qed

lemma real_quick_ratio_self: "real_quick_ratio a a = 1"
  by (simp add: real_quick_ratio_def calculate_ratio_def Let_def)

lemma py_max_ge: "y \<in> set (best # xs) \<Longrightarrow> y \<le> py_max best xs"
proof (induction xs arbitrary: best y)
  case Nil
  then show ?case by simp
next
  case (Cons x xs)
  let ?b = "if best < x then x else best"
  have top: "?b \<le> py_max ?b xs" using Cons.IH[where best = ?b and y = ?b] by simp
  have "y \<le> py_max ?b xs"
  proof (cases "y \<in> set xs")
    case True
    then show ?thesis using Cons.IH[where best = ?b and y = y] by simp
  next
    case False
    with Cons.prems have "y = best \<or> y = x" by auto
    then have "y \<le> ?b" by auto
    from this top show ?thesis by (rule order_trans)
  qed
  then show ?case by simp
qed

lemma get_close_matches_exact:
  assumes "word \<in> set ps"
  shows "get_close_matches word ps 1 (3 / 10) = Inr [word]"
proof -
  let ?ok = "\<lambda>x. 3 / 10 \<le> real_quick_ratio x word \<and> 3 / 10 \<le> quick_ratio x word \<and>
                     3 / 10 \<le> ratio x word"
  let ?result = "map (\<lambda>x. (ratio x word, x)) (filter ?ok ps)"
  have "?ok word" by (simp add: ratio_self quick_ratio_self real_quick_ratio_self)
  with assms have top: "(1, word) \<in> set ?result"
    using ratio_self[of word] by (auto simp: image_iff)
  then have "0 < length ?result" by (rule length_pos_if_in_set)
  then obtain r rs where cons: "?result = r # rs" by (cases ?result) simp_all
  have "py_max r rs \<in> set ?result" unfolding cons by (rule py_max_mem)
  then obtain x where x: "py_max r rs = (ratio x word, x)" by auto
  have "(1, word) \<le> py_max r rs" using top unfolding cons by (rule py_max_ge)
  then have "1 < ratio x word \<or> 1 \<le> ratio x word \<and> word \<le> x"
    unfolding x by (simp add: less_eq_prod_def)
  with ratio_le_1[of x word] have "ratio x word = 1" by linarith
  then have "x = word" by (rule ratio_1_equal)
  then have "snd (py_max r rs) = word" by (simp add: x)
  moreover have "nlargest 1 ?result = [py_max r rs]" unfolding cons by (simp add: nlargest_def)
  ultimately have "map snd (nlargest 1 ?result) = [word]" by simp
  then show ?thesis unfolding get_close_matches_1 by simp
qed

subsection \<open>An input that is a title of the catalog\<close>

text \<open>
  C6, as stated, fails.  The catalog holds the titles "it" (row 0) and "It"
  (row 1).  The input "It" is exactly the title of row 1, but the row resolved is
  row 0, whose title "it" is not the input.
\<close>

theorem C6_exact_title_counterexample:
  "title (movies ex_dup_models ! 1) = ''It'' \<and>
   snd (get_recommendations ''It'' ex_dup_models 5) =
     Inr (Some [ex_dup_movies ! 1, ex_dup_movies ! 2], Some (ex_dup_movies ! 0)) \<and>
   ex_dup_movies ! 0 \<noteq> movies ex_dup_models ! 1 \<and>
   title (ex_dup_movies ! 0) \<noteq> ''It''"
  by (simp add: ex_dup_It) (simp add: ex_dup_models_def ex_dup_movies_def)

text \<open>
  C6, amended.  For an input equal to the title of a catalog row, the Matcher's
  match is the case-folded input, whose similarity ratio to itself is 1.0, and the
  row resolved is the first row of the catalog whose case-folded title equals the
  case-folded input; it is the row of the input itself when no earlier row has
  the same case-folded title.
\<close>

theorem C6_exact_title:
  assumes "p < length (movies models)" and "movie_title = title (movies models ! p)"
  shows "close_matches movie_title models = Inr [lower movie_title] \<and>
         ratio (lower (title (movies models ! p))) (lower movie_title) = 1 \<and>
         (snd (get_recommendations movie_title models n) = Inr (Some recs, Some original) \<longrightarrow>
            (\<exists>i\<le>p. original = movies models ! i \<and>
               lower (title original) = lower movie_title \<and>
               (\<forall>j<i. lower (title (movies models ! j)) \<noteq> lower movie_title) \<and>
               ((\<forall>j<p. lower (title (movies models ! j)) \<noteq> lower movie_title) \<longrightarrow>
                  original = movies models ! p)))"
proof (intro conjI impI)
  have "movies models ! p \<in> set (movies models)" using assms(1) by simp
  then have "lower movie_title \<in> set (map (\<lambda>r. lower (title r)) (movies models))"
    using assms(2) by (simp add: image_iff) blast
  then show cm: "close_matches movie_title models = Inr [lower movie_title]"
    by (rule get_close_matches_exact)
  show "ratio (lower (title (movies models ! p))) (lower movie_title) = 1"
    using assms(2) by (simp add: ratio_self)
  assume "snd (get_recommendations movie_title models n) = Inr (Some recs, Some original)"
  from get_recommendations_SomeD[OF this] cm obtain i where
    fi: "first_index (map (\<lambda>r. lower (title r) = lower movie_title) (movies models)) = Inr i"
    and orig: "original = movies models ! i"
    by auto
  from fi have i: "lower (title (movies models ! i)) = lower movie_title"
    and first: "\<forall>j<i. lower (title (movies models ! j)) \<noteq> lower movie_title"
    by (simp_all add: first_index_titles)
  have "\<not> p < i" using first assms(2) by auto
  then have ip: "i \<le> p" by simp
  show "\<exists>i\<le>p. original = movies models ! i \<and>
               lower (title original) = lower movie_title \<and>
               (\<forall>j<i. lower (title (movies models ! j)) \<noteq> lower movie_title) \<and>
               ((\<forall>j<p. lower (title (movies models ! j)) \<noteq> lower movie_title) \<longrightarrow>
                  original = movies models ! p)"
  proof (intro exI[of _ i] conjI impI)
    show "i \<le> p" by (rule ip)
    show "original = movies models ! i" by (rule orig)
    show "lower (title original) = lower movie_title" using orig i by simp
    show "\<forall>j<i. lower (title (movies models ! j)) \<noteq> lower movie_title" by (rule first)
    assume "\<forall>j<p. lower (title (movies models ! j)) \<noteq> lower movie_title"
    with i have "\<not> i < p" by auto
    with ip have "i = p" by simp
    with orig show "original = movies models ! p" by simp
  qed
qed

theorem C6_exact_title_witness:
  "(1::nat) < length (movies ex_models) \<and> ''Her'' = title (movies ex_models ! 1) \<and>
   close_matches ''Her'' ex_models = Inr [lower ''Her''] \<and>
   ratio (lower (title (movies ex_models ! 1))) (lower ''Her'') = 1 \<and>
   snd (get_recommendations ''Her'' ex_models 5) =
     Inr (Some [ex_movies ! 0, ex_movies ! 2], Some (ex_movies ! 1)) \<and>
   (\<exists>i\<le>1. ex_movies ! 1 = movies ex_models ! i \<and>
      lower (title (ex_movies ! 1)) = lower ''Her'' \<and>
      (\<forall>j<i. lower (title (movies ex_models ! j)) \<noteq> lower ''Her'') \<and>
      ((\<forall>j<1. lower (title (movies ex_models ! j)) \<noteq> lower ''Her'') \<longrightarrow>
         ex_movies ! 1 = movies ex_models ! 1))"
proof -
  have a: "(1::nat) < length (movies ex_models)"
    and b: "''Her'' = title (movies ex_models ! 1)"
    by (simp_all add: ex_models_def ex_movies_def)
  have c: "snd (get_recommendations ''Her'' ex_models 5) =
     Inr (Some [ex_movies ! 0, ex_movies ! 2], Some (ex_movies ! 1))"
    by code_simp
  note t = C6_exact_title[OF a b, of 5 "[ex_movies ! 0, ex_movies ! 2]" "ex_movies ! 1"]
  note t1 = t[THEN conjunct1]
  note t2 = t[THEN conjunct2, THEN conjunct1]
  note t3 = t[THEN conjunct2, THEN conjunct2, THEN mp, OF c]
  show ?thesis by (intro conjI a b c t1 t2 t3)
qed

end
